theory Spec2Isabelle
  imports Main "HOL-Library.AList" "HOL-Library.Sublist"
begin

section \<open>Python string and path primitives used by \<open>main.py\<close>\<close>

text \<open>
  Python strings are modelled as \<open>string\<close> (lists of 8-bit characters, read as the code
  points 0..255). The functions of this section are the CPython library routines that
  \<open>main.py\<close> calls on strings (\<open>str.rfind\<close>, \<open>posixpath.basename\<close>,
  \<open>genericpath._splitext\<close>, \<open>posixpath.join\<close>), written after their library source.
\<close>

text \<open>\<open>s.rfind(c)\<close>: the highest index at which \<open>c\<close> occurs, or \<open>-1\<close>.\<close>

fun rfind :: "char \<Rightarrow> string \<Rightarrow> int" where
  "rfind c [] = - 1"
| "rfind c (x # xs) =
     (let r = rfind c xs in if 0 \<le> r then r + 1 else if x = c then 0 else - 1)"

text \<open>
  \<open>posixpath.basename\<close>:
  \<^verbatim>\<open>i = p.rfind('/') + 1; return p[i:]\<close>
\<close>

definition basename :: "string \<Rightarrow> string" where
  "basename p = (let i = rfind CHR ''/'' p + 1 in drop (nat i) p)"

text \<open>
  The loop of \<open>genericpath._splitext\<close> that skips leading dots:
  \<^verbatim>\<open>
  while filenameIndex < dotIndex:
      if p[filenameIndex:filenameIndex+1] != extsep:
          return p[:dotIndex], p[dotIndex:]
      filenameIndex += 1
  \<close>
  \<open>splitext_loop\<close> is \<open>True\<close> when the loop returns the split, \<open>False\<close> when it
  runs to its end.
\<close>

function splitext_loop :: "string \<Rightarrow> int \<Rightarrow> int \<Rightarrow> bool" where
  "splitext_loop p filenameIndex dotIndex =
     (if filenameIndex < dotIndex
      then (if take 1 (drop (nat filenameIndex) p) \<noteq> ''.'' then True
            else splitext_loop p (filenameIndex + 1) dotIndex)
      else False)"
  by pat_completeness auto
termination
  by (relation "measure (\<lambda>(p, i, d). nat (d - i))") auto

declare splitext_loop.simps [simp del]

text \<open>
  \<open>os.path.splitext\<close> (\<open>genericpath._splitext\<close> with \<open>sep = '/'\<close>, no \<open>altsep\<close>,
  \<open>extsep = '.'\<close>):
  \<^verbatim>\<open>
  sepIndex = p.rfind(sep)
  dotIndex = p.rfind(extsep)
  if dotIndex > sepIndex:
      filenameIndex = sepIndex + 1
      while ...
  return p, p[:0]
  \<close>
\<close>

definition splitext :: "string \<Rightarrow> string \<times> string" where
  "splitext p =
     (let sepIndex = rfind CHR ''/'' p;
          dotIndex = rfind CHR ''.'' p
      in if dotIndex > sepIndex \<and> splitext_loop p (sepIndex + 1) dotIndex
         then (take (nat dotIndex) p, drop (nat dotIndex) p)
         else (p, []))"

text \<open>
  Line 36 of \<open>main.py\<close>:
  \<^verbatim>\<open>base_file_name, _ = os.path.splitext(os.path.basename(source_gcs_object))\<close>
\<close>

definition base_file_name_of :: "string \<Rightarrow> string" where
  "base_file_name_of source_gcs_object = fst (splitext (basename source_gcs_object))"

text \<open>
  \<open>posixpath.join(a, b)\<close> for one joined component:
  \<^verbatim>\<open>
  if b.startswith(sep): path = b
  elif not path or path.endswith(sep): path += b
  else: path += sep + b
  \<close>
\<close>

definition path_join :: "string \<Rightarrow> string \<Rightarrow> string" where
  "path_join a b =
     (if b \<noteq> [] \<and> hd b = CHR ''/'' then b
      else if a = [] \<or> last a = CHR ''/'' then a @ b
      else a @ ''/'' @ b)"

text \<open>\<open>s.split('/')\<close> and \<open>'/'.join(comps)\<close>.\<close>

fun split_sep :: "string \<Rightarrow> string list" where
  "split_sep [] = [[]]"
| "split_sep (x # xs) =
     (case split_sep xs of
        [] \<Rightarrow> [[x]]
      | c # cs \<Rightarrow> if x = CHR ''/'' then [] # c # cs else (x # c) # cs)"

fun join_sep :: "string list \<Rightarrow> string" where
  "join_sep [] = []"
| "join_sep [c] = c"
| "join_sep (c # d # cs) = c @ ''/'' @ join_sep (d # cs)"

text \<open>
  The component loop of \<open>posixpath.normpath\<close>:
  \<^verbatim>\<open>
  for comp in comps:
      if comp in ('', '.'): continue
      if (comp != '..' or (not initial_slashes and not new_comps) or
           (new_comps and new_comps[-1] == '..')):
          new_comps.append(comp)
      elif new_comps:
          new_comps.pop()
  \<close>
\<close>

fun normpath_loop :: "bool \<Rightarrow> string list \<Rightarrow> string list \<Rightarrow> string list" where
  "normpath_loop initial_slashes new_comps [] = new_comps"
| "normpath_loop initial_slashes new_comps (c # cs) =
     (if c = [] \<or> c = ''.'' then normpath_loop initial_slashes new_comps cs
      else if c \<noteq> ''..'' \<or> (\<not> initial_slashes \<and> new_comps = [])
                \<or> (new_comps \<noteq> [] \<and> last new_comps = ''..'')
      then normpath_loop initial_slashes (new_comps @ [c]) cs
      else if new_comps \<noteq> [] then normpath_loop initial_slashes (butlast new_comps) cs
      else normpath_loop initial_slashes new_comps cs)"

text \<open>
  \<open>posixpath.normpath\<close>: an empty path is \<open>'.'\<close>; POSIX keeps exactly two leading
  slashes, and one for any other number of them.
\<close>

definition normpath :: "string \<Rightarrow> string" where
  "normpath p =
     (if p = [] then ''.''
      else
        let initial_slashes =
              (if take 1 p = ''/''
               then (if take 2 p = ''//'' \<and> take 3 p \<noteq> ''///'' then 2 else 1)
               else (0::nat));
            comps = normpath_loop (0 < initial_slashes) [] (split_sep p);
            r = replicate initial_slashes CHR ''/'' @ join_sep comps
        in if r = [] then ''.'' else r)"

text \<open>
  \<open>os.getcwd()\<close>. Every path \<open>main.py\<close> hands to the operating system starts with
  \<open>/tmp/\<close>, so the working directory is never consulted on those paths; it is taken to
  be the root.
\<close>

definition getcwd :: string where
  "getcwd = ''/''"

definition abspath :: "string \<Rightarrow> string" where
  "abspath p = normpath (if take 1 p = ''/'' then p else path_join getcwd p)"

text \<open>
  \<open>os.path.commonprefix\<close> on two component lists: the longest list that is a prefix of
  both.
\<close>

fun commonprefix :: "string list \<Rightarrow> string list \<Rightarrow> string list" where
  "commonprefix (x # xs) (y # ys) = (if x = y then x # commonprefix xs ys else [])"
| "commonprefix _ _ = []"

datatype errno = ENOENT | ENOTDIR | EISDIR | EEXIST | ENOTEMPTY | EBUSY

text \<open>
  The exceptions that can reach the \<open>except Exception\<close> clause of the handler: operating
  system errors (with the path the call was given), a non-zero exit of the encoder
  (\<open>subprocess.CalledProcessError\<close> with the return code), a failure to start it, a
  \<open>ValueError\<close> of \<open>os.path.relpath\<close>, and failures raised by the storage and the
  Pub/Sub client libraries.
\<close>

datatype exn =
    OSError errno string
  | CalledProcessError int
  | SpawnError
  | ValueError
  | StorageError
  | PublishError

text \<open>
  \<open>posixpath.relpath(path, start)\<close>:
  \<^verbatim>\<open>
  if not path: raise ValueError("no path specified")
  start_list = [x for x in abspath(start).split(sep) if x]
  path_list = [x for x in abspath(path).split(sep) if x]
  i = len(commonprefix([start_list, path_list]))
  rel_list = [pardir] * (len(start_list)-i) + path_list[i:]
  if not rel_list: return curdir
  return join(*rel_list)
  \<close>
\<close>

definition relpath :: "string \<Rightarrow> string \<Rightarrow> exn + string" where
  "relpath p start =
     (if p = [] then Inl ValueError
      else
        let start_list = filter (\<lambda>x. x \<noteq> []) (split_sep (abspath start));
            path_list = filter (\<lambda>x. x \<noteq> []) (split_sep (abspath p));
            i = length (commonprefix start_list path_list);
            rel_list = replicate (length start_list - i) ''..'' @ drop i path_list
        in if rel_list = [] then Inr ''.'' else Inr (join_sep rel_list))"

section \<open>The local file system\<close>

text \<open>
  The scratch disk is a tree: a regular file with its contents, or a directory with its
  entries in the order \<open>os.scandir\<close> lists them (the first entry of a name is the one
  the name denotes). There are no symbolic links and no permissions in this model. A
  canonical path is the list of names from the root.
\<close>

datatype node = File string | Dir "(string \<times> node) list"

type_synonym path = "string list"

primrec fs_lookup :: "path \<Rightarrow> node \<Rightarrow> node option" where
  "fs_lookup [] n = Some n"
| "fs_lookup (c # cs) n =
     (case n of
        File _ \<Rightarrow> None
      | Dir es \<Rightarrow> (case map_of es c of None \<Rightarrow> None | Some m \<Rightarrow> fs_lookup cs m))"

text \<open>\<open>fs_put p v\<close> stores \<open>v\<close> at \<open>p\<close> when the parent of \<open>p\<close> is a directory.\<close>

primrec fs_put :: "path \<Rightarrow> node \<Rightarrow> node \<Rightarrow> node" where
  "fs_put [] v n = v"
| "fs_put (c # cs) v n =
     (case n of
        File x \<Rightarrow> File x
      | Dir es \<Rightarrow>
          (if cs = [] then Dir (AList.update c v es)
           else (case map_of es c of
                   None \<Rightarrow> Dir es
                 | Some m \<Rightarrow> Dir (AList.update c (fs_put cs v m) es))))"

primrec fs_delete :: "path \<Rightarrow> node \<Rightarrow> node" where
  "fs_delete [] n = n"
| "fs_delete (c # cs) n =
     (case n of
        File x \<Rightarrow> File x
      | Dir es \<Rightarrow>
          (if cs = [] then Dir (AList.delete c es)
           else (case map_of es c of
                   None \<Rightarrow> Dir es
                 | Some m \<Rightarrow> Dir (AList.update c (fs_delete cs m) es))))"

definition is_dir :: "node \<Rightarrow> bool" where
  "is_dir n = (case n of Dir _ \<Rightarrow> True | File _ \<Rightarrow> False)"

definition is_file :: "node \<Rightarrow> bool" where
  "is_file n = (case n of Dir _ \<Rightarrow> False | File _ \<Rightarrow> True)"

text \<open>
  Path resolution as the kernel does it: component by component from the root, every
  component looked up in an existing directory; an empty component and \<open>.\<close> stay,
  \<open>..\<close> goes to the parent. The last component need not exist.
\<close>

fun walk_path :: "node \<Rightarrow> path \<Rightarrow> string list \<Rightarrow> errno + path" where
  "walk_path root cur [] = Inr cur"
| "walk_path root cur (c # cs) =
     (case fs_lookup cur root of
        None \<Rightarrow> Inl ENOENT
      | Some (File _) \<Rightarrow> Inl ENOTDIR
      | Some (Dir _) \<Rightarrow>
          if c = [] \<or> c = ''.'' then walk_path root cur cs
          else if c = ''..'' then walk_path root (butlast cur) cs
          else walk_path root (cur @ [c]) cs)"

definition resolve :: "node \<Rightarrow> string \<Rightarrow> errno + path" where
  "resolve root p = (if p = [] then Inl ENOENT else walk_path root [] (split_sep p))"

definition os_path_exists :: "node \<Rightarrow> string \<Rightarrow> bool" where
  "os_path_exists root p =
     (case resolve root p of
        Inl _ \<Rightarrow> False
      | Inr q \<Rightarrow> (case fs_lookup q root of None \<Rightarrow> False | Some _ \<Rightarrow> True))"

definition os_path_isdir :: "node \<Rightarrow> string \<Rightarrow> bool" where
  "os_path_isdir root p =
     (case resolve root p of
        Inl _ \<Rightarrow> False
      | Inr q \<Rightarrow> (case fs_lookup q root of None \<Rightarrow> False | Some n \<Rightarrow> is_dir n))"

text \<open>\<open>open(p, "wb")\<close> followed by writing \<open>content\<close> and closing.\<close>

definition write_file :: "string \<Rightarrow> string \<Rightarrow> node \<Rightarrow> exn + node" where
  "write_file p content root =
     (case resolve root p of
        Inl e \<Rightarrow> Inl (OSError e p)
      | Inr q \<Rightarrow>
          (case fs_lookup q root of
             Some (Dir _) \<Rightarrow> Inl (OSError EISDIR p)
           | _ \<Rightarrow> Inr (fs_put q (File content) root)))"

text \<open>\<open>open(p, "rb").read()\<close>.\<close>

definition read_file :: "string \<Rightarrow> node \<Rightarrow> exn + string" where
  "read_file p root =
     (case resolve root p of
        Inl e \<Rightarrow> Inl (OSError e p)
      | Inr q \<Rightarrow>
          (case fs_lookup q root of
             None \<Rightarrow> Inl (OSError ENOENT p)
           | Some (Dir _) \<Rightarrow> Inl (OSError EISDIR p)
           | Some (File content) \<Rightarrow> Inr content))"

definition os_remove :: "string \<Rightarrow> node \<Rightarrow> exn + node" where
  "os_remove p root =
     (case resolve root p of
        Inl e \<Rightarrow> Inl (OSError e p)
      | Inr q \<Rightarrow>
          (case fs_lookup q root of
             None \<Rightarrow> Inl (OSError ENOENT p)
           | Some (Dir _) \<Rightarrow> Inl (OSError EISDIR p)
           | Some (File _) \<Rightarrow> Inr (fs_delete q root)))"

text \<open>\<open>os.rmdir\<close> removes an empty directory only.\<close>

definition os_rmdir :: "string \<Rightarrow> node \<Rightarrow> exn + node" where
  "os_rmdir p root =
     (case resolve root p of
        Inl e \<Rightarrow> Inl (OSError e p)
      | Inr q \<Rightarrow>
          (case fs_lookup q root of
             None \<Rightarrow> Inl (OSError ENOENT p)
           | Some (File _) \<Rightarrow> Inl (OSError ENOTDIR p)
           | Some (Dir es) \<Rightarrow>
               if es \<noteq> [] then Inl (OSError ENOTEMPTY p)
               else if q = [] then Inl (OSError EBUSY p)
               else Inr (fs_delete q root)))"

text \<open>
  \<open>os.makedirs(name, exist_ok=...)\<close>: the leaf directory and every missing directory on
  the way to it are created. A regular file on the way raises; an existing leaf raises
  \<open>FileExistsError\<close> unless it is a directory and \<open>exist_ok\<close> is set. What was created
  before an error stays, so the file system is returned in both cases.
\<close>

fun makedirs_loop :: "bool \<Rightarrow> string \<Rightarrow> path \<Rightarrow> string list \<Rightarrow> node \<Rightarrow> exn option \<times> node" where
  "makedirs_loop exist_ok name cur [] root = (None, root)"
| "makedirs_loop exist_ok name cur (c # cs) root =
     (if c = ''..'' then makedirs_loop exist_ok name (butlast cur) cs root
      else
        case fs_lookup (cur @ [c]) root of
          None \<Rightarrow>
            makedirs_loop exist_ok name (cur @ [c]) cs (fs_put (cur @ [c]) (Dir []) root)
        | Some (File _) \<Rightarrow> (Some (OSError (if cs = [] then EEXIST else ENOTDIR) name), root)
        | Some (Dir _) \<Rightarrow>
            if cs = [] \<and> \<not> exist_ok then (Some (OSError EEXIST name), root)
            else makedirs_loop exist_ok name (cur @ [c]) cs root)"

definition os_makedirs :: "string \<Rightarrow> bool \<Rightarrow> node \<Rightarrow> exn option \<times> node" where
  "os_makedirs name exist_ok root =
     (if name = [] then (Some (OSError ENOENT name), root)
      else if \<not> is_dir root then (Some (OSError ENOTDIR name), root)
      else makedirs_loop exist_ok name []
             (filter (\<lambda>c. c \<noteq> [] \<and> c \<noteq> ''.'') (split_sep name)) root)"

text \<open>
  \<open>os.walk(tp)\<close>, top down: one triple \<open>(dirpath, dirnames, filenames)\<close> for the
  directory, then the walks of its subdirectories in listing order, each under
  \<open>os.path.join(dirpath, name)\<close>. \<open>main.py\<close> changes no directory entry of a
  subdirectory before the generator reaches it (it only unlinks the regular files of
  the triple it is at), so the list computed on the tree at the start of the loop is
  the sequence the generator yields. A path that is not a directory yields nothing
  (\<open>os.walk\<close> swallows the error of \<open>scandir\<close>).
\<close>

fun walk_tree :: "string \<Rightarrow> (string \<times> node) list \<Rightarrow> (string \<times> string list \<times> string list) list" where
  "walk_tree dirpath es =
     (dirpath, map fst (filter (\<lambda>e. is_dir (snd e)) es),
               map fst (filter (\<lambda>e. is_file (snd e)) es)) #
     concat (map (\<lambda>e. case snd e of
                         Dir sub \<Rightarrow> walk_tree (path_join dirpath (fst e)) sub
                       | File _ \<Rightarrow> []) es)"

definition os_walk :: "node \<Rightarrow> string \<Rightarrow> (string \<times> string list \<times> string list) list" where
  "os_walk root tp =
     (case resolve root tp of
        Inl _ \<Rightarrow> []
      | Inr q \<Rightarrow> (case fs_lookup q root of Some (Dir es) \<Rightarrow> walk_tree tp es | _ \<Rightarrow> []))"

section \<open>The world of one invocation\<close>

text \<open>Constants of \<open>main.py\<close> (lines 15 to 19).\<close>

definition PROJECT_ID :: string where
  "PROJECT_ID = ''verse-dev-433901''"

definition SOURCE_BUCKET_NAME :: string where
  "SOURCE_BUCKET_NAME = ''vodunprocessedgcp''"

definition DESTINATION_BUCKET_NAME :: string where
  "DESTINATION_BUCKET_NAME = ''vodprocessedgcp''"

definition PUBSUB_TOPIC_NAME :: string where
  "PUBSUB_TOPIC_NAME = ''verse-dev-433901-topic''"

text \<open>
  A listed object of the source bucket: its key, its creation time (a point on a linear
  time scale) and its contents.
\<close>

record blob =
  name :: string
  time_created :: int
  content :: string

text \<open>
  The calls \<open>main.py\<close> makes to its collaborators and the mutating calls it makes to the
  operating system, each recorded when the call is made, whether it then succeeds or
  raises.
\<close>

datatype call =
    ListBlobs string
  | CopyBlob string string string
  | DownloadBlob string string string
  | RunTranscode string string
  | RunThumbnail string string
  | UploadBlob string string string
  | Publish string string
  | Makedirs string
  | Remove string
  | Rmdir string

record world =
  source_bucket :: "blob list"
  destination_bucket :: "string \<rightharpoonup> string"
  fs :: node
  published :: "(string \<times> string) list"
  calls :: "call list"

text \<open>
  What the collaborators do in one invocation is outside \<open>main.py\<close>; it is a parameter.
  \<^item> \<open>list_blobs_fails\<close>, \<open>copy_blob_fails\<close>, \<open>publish_fails\<close>: the client call raises;
  \<^item> \<open>download_result\<close>: the download succeeds, or raises and the client library does
    (\<open>True\<close>) or does not (\<open>False\<close>) delete the file it had opened;
  \<^item> \<open>upload_fails key\<close>: the upload to \<open>key\<close> raises;
  \<^item> \<open>dash_result\<close>, \<open>dash_files\<close>: how the transcoding process ends and the files
    (name and contents) it has written into its output directory by then;
  \<^item> \<open>thumbnail_result\<close>, \<open>thumbnail_file\<close>: how the thumbnail process ends and the
    image it has written, if any.
\<close>

datatype proc_result = Exited int | NotStarted

datatype download_result = Downloaded | DownloadFailed bool

record env =
  list_blobs_fails :: bool
  copy_blob_fails :: bool
  download_result :: download_result
  dash_result :: proc_result
  dash_files :: "(string \<times> string) list"
  upload_fails :: "string \<Rightarrow> bool"
  thumbnail_result :: proc_result
  thumbnail_file :: "string option"
  publish_fails :: bool

text \<open>
  A computation of \<open>main.py\<close>: it changes the world and returns a value or raises. The
  changes made before a \<open>raise\<close> stay.
\<close>

type_synonym 'a eff = "world \<Rightarrow> (exn + 'a) \<times> world"

definition ok :: "'a \<Rightarrow> 'a eff" where
  "ok x = (\<lambda>w. (Inr x, w))"

definition throw :: "exn \<Rightarrow> 'a eff" where
  "throw e = (\<lambda>w. (Inl e, w))"

definition and_then :: "'a eff \<Rightarrow> ('a \<Rightarrow> 'b eff) \<Rightarrow> 'b eff" where
  "and_then m f = (\<lambda>w. case m w of (Inl e, w') \<Rightarrow> (Inl e, w') | (Inr x, w') \<Rightarrow> f x w')"

definition record_call :: "call \<Rightarrow> unit eff" where
  "record_call c = (\<lambda>w. (Inr (), w\<lparr>calls := calls w @ [c]\<rparr>))"

text \<open>A file system operation that leaves the disk as it was when it raises.\<close>

definition on_fs :: "(node \<Rightarrow> exn + node) \<Rightarrow> unit eff" where
  "on_fs f = (\<lambda>w. case f (fs w) of Inl e \<Rightarrow> (Inl e, w) | Inr r \<Rightarrow> (Inr (), w\<lparr>fs := r\<rparr>))"

definition makedirs :: "string \<Rightarrow> bool \<Rightarrow> unit eff" where
  "makedirs p exist_ok =
     and_then (record_call (Makedirs p))
       (\<lambda>_ w. case os_makedirs p exist_ok (fs w) of
                 (Some e, r) \<Rightarrow> (Inl e, w\<lparr>fs := r\<rparr>)
               | (None, r) \<Rightarrow> (Inr (), w\<lparr>fs := r\<rparr>))"

definition remove :: "string \<Rightarrow> unit eff" where
  "remove p = and_then (record_call (Remove p)) (\<lambda>_. on_fs (os_remove p))"

definition rmdir :: "string \<Rightarrow> unit eff" where
  "rmdir p = and_then (record_call (Rmdir p)) (\<lambda>_. on_fs (os_rmdir p))"

section \<open>The request\<close>

text \<open>
  \<open>request.get_json(silent=True)\<close> is the parsed body, or \<open>None\<close> when the body is
  absent or does not parse. A parsed body is a Python value built from \<open>None\<close>,
  \<open>bool\<close>, \<open>int\<close>, \<open>float\<close>, \<open>str\<close>, \<open>list\<close> and \<open>dict\<close>. A float is
  \<open>m * 2^e\<close>, an infinity or a NaN.
\<close>

datatype pyfloat = Finite int int | Infinity bool | NaN

datatype json =
    JNull
  | JBool bool
  | JInt int
  | JFloat pyfloat
  | JString string
  | JArray "json list"
  | JObject "(string \<times> json) list"

text \<open>Python truth value testing, as \<open>not request_json\<close> uses it.\<close>

fun truthy :: "json \<Rightarrow> bool" where
  "truthy JNull = False"
| "truthy (JBool b) = b"
| "truthy (JInt i) = (i \<noteq> 0)"
| "truthy (JFloat (Finite m e)) = (m \<noteq> 0)"
| "truthy (JFloat (Infinity s)) = True"
| "truthy (JFloat NaN) = True"
| "truthy (JString s) = (s \<noteq> [])"
| "truthy (JArray xs) = (xs \<noteq> [])"
| "truthy (JObject kvs) = (kvs \<noteq> [])"

record request =
  get_json :: "json option"

text \<open>
  The handler returns a dictionary, alone or in a pair with the HTTP status. The
  \<open>error\<close> entry is \<open>str(e)\<close>; the model keeps the exception itself.
\<close>

record response =
  statusCode :: nat
  message :: string
  outputPath :: "string option"
  error :: "exn option"

type_synonym handler_return = "response \<times> nat option"

section \<open>The functions of \<open>main.py\<close>\<close>

text \<open>
  \<open>max(blobs, key=..., default=None)\<close>: the first item whose key no later item
  exceeds (CPython replaces the running maximum only by a strictly greater one).
\<close>

fun max_loop :: "('a \<Rightarrow> int) \<Rightarrow> 'a \<Rightarrow> 'a list \<Rightarrow> 'a" where
  "max_loop key m [] = m"
| "max_loop key m (x # xs) = max_loop key (if key m < key x then x else m) xs"

fun py_max :: "('a \<Rightarrow> int) \<Rightarrow> 'a list \<Rightarrow> 'a option" where
  "py_max key [] = None"
| "py_max key (x # xs) = Some (max_loop key x xs)"

text \<open>\<open>list(storage_client.list_blobs(bucket))\<close>.\<close>

definition list_blobs :: "env \<Rightarrow> string \<Rightarrow> blob list eff" where
  "list_blobs ev bucket_name =
     and_then (record_call (ListBlobs bucket_name))
       (\<lambda>_ w. if list_blobs_fails ev \<or> bucket_name \<noteq> SOURCE_BUCKET_NAME
               then (Inl StorageError, w)
               else (Inr (source_bucket w), w))"

text \<open>
  \<^verbatim>\<open>
  def get_latest_blob(storage_client, bucket_name):
      bucket = storage_client.bucket(bucket_name)
      blobs = list(storage_client.list_blobs(bucket))
      return max(blobs, key=lambda blob: blob.time_created, default=None)
  \<close>
\<close>

definition get_latest_blob :: "env \<Rightarrow> string \<Rightarrow> blob option eff" where
  "get_latest_blob ev bucket_name =
     and_then (list_blobs ev bucket_name) (\<lambda>blobs. ok (py_max time_created blobs))"

text \<open>
  \<^verbatim>\<open>
  def copy_original_file(storage_client, source_blob, base_file_name):
      destination_bucket = storage_client.bucket(DESTINATION_BUCKET_NAME)
      new_blob_name = f"{base_file_name}/original/{source_blob.name}"
      copied_blob = source_blob.bucket.copy_blob(source_blob, destination_bucket, new_blob_name)
  \<close>
\<close>

definition copy_original_file :: "env \<Rightarrow> blob \<Rightarrow> string \<Rightarrow> unit eff" where
  "copy_original_file ev source_blob base_file_name =
     (let new_blob_name = base_file_name @ ''/original/'' @ name source_blob
      in and_then (record_call (CopyBlob (name source_blob) DESTINATION_BUCKET_NAME new_blob_name))
           (\<lambda>_ w. if copy_blob_fails ev then (Inl StorageError, w)
                   else (Inr (), w\<lparr>destination_bucket :=
                                      (destination_bucket w)(new_blob_name \<mapsto> content source_blob)\<rparr>)))"

text \<open>
  \<^verbatim>\<open>
  def download_blob(bucket_name, source_blob_name, destination_file_name):
      ...
      blob = bucket.blob(source_blob_name)
      blob.download_to_filename(destination_file_name)
  \<close>
  \<open>download_to_filename\<close> opens the local file for writing, then fetches the object of
  that name; when the object is missing it deletes the file and raises.
\<close>

definition download_blob :: "env \<Rightarrow> string \<Rightarrow> string \<Rightarrow> string \<Rightarrow> unit eff" where
  "download_blob ev bucket_name source_blob_name destination_file_name =
     and_then (record_call (DownloadBlob bucket_name source_blob_name destination_file_name))
       (\<lambda>_. and_then (on_fs (write_file destination_file_name []))
         (\<lambda>_. case download_result ev of
                 DownloadFailed removed \<Rightarrow>
                   (\<lambda>w. (Inl StorageError,
                          if removed
                          then (case os_remove destination_file_name (fs w) of
                                  Inl _ \<Rightarrow> w | Inr r \<Rightarrow> w\<lparr>fs := r\<rparr>)
                          else w))
               | Downloaded \<Rightarrow>
                   (\<lambda>w. case (if bucket_name = SOURCE_BUCKET_NAME
                               then find (\<lambda>b. name b = source_blob_name) (source_bucket w)
                               else None) of
                           None \<Rightarrow>
                             (Inl StorageError,
                              case os_remove destination_file_name (fs w) of
                                Inl _ \<Rightarrow> w | Inr r \<Rightarrow> w\<lparr>fs := r\<rparr>)
                         | Some b \<Rightarrow> on_fs (write_file destination_file_name (content b)) w)))"

text \<open>
  \<^verbatim>\<open>
  def upload_blob(bucket_name, source_file_name, destination_blob_name):
      ...
      blob = bucket.blob(destination_blob_name)
      blob.upload_from_filename(source_file_name)
  \<close>
\<close>

definition upload_blob :: "env \<Rightarrow> string \<Rightarrow> string \<Rightarrow> string \<Rightarrow> unit eff" where
  "upload_blob ev bucket_name source_file_name destination_blob_name =
     and_then (record_call (UploadBlob bucket_name source_file_name destination_blob_name))
       (\<lambda>_ w. case read_file source_file_name (fs w) of
                 Inl e \<Rightarrow> (Inl e, w)
               | Inr c \<Rightarrow>
                   if upload_fails ev destination_blob_name \<or> bucket_name \<noteq> DESTINATION_BUCKET_NAME
                   then (Inl StorageError, w)
                   else (Inr (), w\<lparr>destination_bucket :=
                                      (destination_bucket w)(destination_blob_name \<mapsto> c)\<rparr>))"

text \<open>
  \<^verbatim>\<open>
  def upload_directory(local_directory, bucket_name, destination_prefix):
      ...
      for root, _, files in os.walk(local_directory):
          for file in files:
              local_path = os.path.join(root, file)
              relative_path = os.path.relpath(local_path, local_directory)
              destination_blob_name = os.path.join(destination_prefix, relative_path)
              upload_blob(bucket_name, local_path, destination_blob_name)
  \<close>
  \<open>upload_files\<close> is the inner loop, \<open>upload_walk\<close> the outer one.
\<close>

fun upload_files :: "env \<Rightarrow> string \<Rightarrow> string \<Rightarrow> string \<Rightarrow> string \<Rightarrow> string list \<Rightarrow> unit eff" where
  "upload_files ev local_directory bucket_name destination_prefix root [] = ok ()"
| "upload_files ev local_directory bucket_name destination_prefix root (file # files) =
     and_then
       (let local_path = path_join root file
        in case relpath local_path local_directory of
             Inl e \<Rightarrow> throw e
           | Inr relative_path \<Rightarrow>
               upload_blob ev bucket_name local_path (path_join destination_prefix relative_path))
       (\<lambda>_. upload_files ev local_directory bucket_name destination_prefix root files)"

fun upload_walk ::
  "env \<Rightarrow> string \<Rightarrow> string \<Rightarrow> string \<Rightarrow> (string \<times> string list \<times> string list) list \<Rightarrow> unit eff" where
  "upload_walk ev local_directory bucket_name destination_prefix [] = ok ()"
| "upload_walk ev local_directory bucket_name destination_prefix ((root, dirs, files) # rest) =
     and_then (upload_files ev local_directory bucket_name destination_prefix root files)
       (\<lambda>_. upload_walk ev local_directory bucket_name destination_prefix rest)"

definition upload_directory :: "env \<Rightarrow> string \<Rightarrow> string \<Rightarrow> string \<Rightarrow> unit eff" where
  "upload_directory ev local_directory bucket_name destination_prefix =
     (\<lambda>w. upload_walk ev local_directory bucket_name destination_prefix
             (os_walk (fs w) local_directory) w)"

text \<open>
  The external encoder writes its output files into the output directory; a file it
  cannot open is skipped.
\<close>

fun write_outputs :: "string \<Rightarrow> (string \<times> string) list \<Rightarrow> node \<Rightarrow> node" where
  "write_outputs output_dir [] root = root"
| "write_outputs output_dir ((f, c) # rest) root =
     write_outputs output_dir rest
       (case write_file (path_join output_dir f) c root of Inl _ \<Rightarrow> root | Inr r \<Rightarrow> r)"

text \<open>
  \<open>subprocess.run(ffmpeg_command, check=True)\<close> for the transcoding command, whose input
  is \<open>local_video_path\<close> and whose output is \<open>dash_manifest_path\<close> in \<open>output_dir\<close>.
\<close>

definition run_transcode :: "env \<Rightarrow> string \<Rightarrow> string \<Rightarrow> string \<Rightarrow> unit eff" where
  "run_transcode ev local_video_path output_dir dash_manifest_path =
     and_then (record_call (RunTranscode local_video_path dash_manifest_path))
       (\<lambda>_ w. case dash_result ev of
                 NotStarted \<Rightarrow> (Inl SpawnError, w)
               | Exited rc \<Rightarrow>
                   (if rc \<noteq> 0 then Inl (CalledProcessError rc) else Inr (),
                    w\<lparr>fs := write_outputs output_dir (dash_files ev) (fs w)\<rparr>))"

text \<open>
  \<^verbatim>\<open>
  def generate_dash_files(base_file_name, source_blob_name, output_path, output_dir):
      local_video_path = f"/tmp/{source_blob_name}"
      os.makedirs(output_dir, exist_ok=True)
      download_blob(SOURCE_BUCKET_NAME, source_blob_name, local_video_path)
      dash_manifest_path = f"{output_dir}/manifest.mpd"
      ffmpeg_command = [...]
      subprocess.run(ffmpeg_command, check=True)
      upload_directory(output_dir, DESTINATION_BUCKET_NAME, output_path)
  \<close>
\<close>

definition generate_dash_files :: "env \<Rightarrow> string \<Rightarrow> string \<Rightarrow> string \<Rightarrow> string \<Rightarrow> unit eff" where
  "generate_dash_files ev base_file_name source_blob_name output_path output_dir =
     (let local_video_path = ''/tmp/'' @ source_blob_name
      in and_then (makedirs output_dir True)
           (\<lambda>_. and_then (download_blob ev SOURCE_BUCKET_NAME source_blob_name local_video_path)
             (\<lambda>_. let dash_manifest_path = output_dir @ ''/manifest.mpd''
                   in and_then (run_transcode ev local_video_path output_dir dash_manifest_path)
                        (\<lambda>_. upload_directory ev output_dir DESTINATION_BUCKET_NAME output_path))))"

text \<open>\<open>subprocess.run(ffmpeg_command, check=True)\<close> for the thumbnail command.\<close>

definition run_thumbnail :: "env \<Rightarrow> string \<Rightarrow> string \<Rightarrow> unit eff" where
  "run_thumbnail ev local_video_path local_thumbnail_path =
     and_then (record_call (RunThumbnail local_video_path local_thumbnail_path))
       (\<lambda>_ w. case thumbnail_result ev of
                 NotStarted \<Rightarrow> (Inl SpawnError, w)
               | Exited rc \<Rightarrow>
                   (if rc \<noteq> 0 then Inl (CalledProcessError rc) else Inr (),
                    case thumbnail_file ev of
                      None \<Rightarrow> w
                    | Some c \<Rightarrow>
                        (case write_file local_thumbnail_path c (fs w) of
                           Inl _ \<Rightarrow> w | Inr r \<Rightarrow> w\<lparr>fs := r\<rparr>)))"

text \<open>
  \<^verbatim>\<open>
  def generate_thumbnail(base_file_name, source_blob_name):
      local_video_path = f"/tmp/{source_blob_name}"
      local_thumbnail_path = f"/tmp/{base_file_name}.jpg"
      ffmpeg_command = [...]
      subprocess.run(ffmpeg_command, check=True)
      upload_blob(DESTINATION_BUCKET_NAME, local_thumbnail_path,
                  f"{base_file_name}/thumbnail/{base_file_name}.jpg")
  \<close>
\<close>

definition generate_thumbnail :: "env \<Rightarrow> string \<Rightarrow> string \<Rightarrow> unit eff" where
  "generate_thumbnail ev base_file_name source_blob_name =
     (let local_video_path = ''/tmp/'' @ source_blob_name;
          local_thumbnail_path = ''/tmp/'' @ base_file_name @ ''.jpg''
      in and_then (run_thumbnail ev local_video_path local_thumbnail_path)
           (\<lambda>_. upload_blob ev DESTINATION_BUCKET_NAME local_thumbnail_path
                   (base_file_name @ ''/thumbnail/'' @ base_file_name @ ''.jpg'')))"

text \<open>
  \<open>json.dumps\<close> writes a string with \<open>ensure_ascii\<close>: the quote and the backslash are
  escaped by a backslash, the control characters \<open>\b \f \n \r \t\<close> by their letter,
  every other character outside \<open>' '..'~'\<close> as \<open>\uXXXX\<close> in lower-case hexadecimal.
\<close>

definition hex_digit :: "nat \<Rightarrow> char" where
  "hex_digit n = ''0123456789abcdef'' ! (n mod 16)"

definition json_escape_char :: "char \<Rightarrow> string" where
  "json_escape_char c =
     (if c = CHR 0x22 then [CHR 0x5C, CHR 0x22]
      else if c = CHR 0x5C then [CHR 0x5C, CHR 0x5C]
      else if c = CHR 0x0A then [CHR 0x5C, CHR ''n'']
      else if c = CHR 0x0D then [CHR 0x5C, CHR ''r'']
      else if c = CHR 0x09 then [CHR 0x5C, CHR ''t'']
      else if c = CHR 0x08 then [CHR 0x5C, CHR ''b'']
      else if c = CHR 0x0C then [CHR 0x5C, CHR ''f'']
      else if (32::nat) \<le> of_char c \<and> of_char c \<le> (126::nat) then [c]
      else [CHR 0x5C, CHR ''u'', CHR ''0'', CHR ''0'',
            hex_digit ((of_char c :: nat) div 16), hex_digit ((of_char c :: nat) mod 16)])"

definition json_dumps_string :: "string \<Rightarrow> string" where
  "json_dumps_string s = [CHR 0x22] @ concat (map json_escape_char s) @ [CHR 0x22]"

text \<open>\<open>json.dumps({"message": s})\<close>, with the default separators.\<close>

definition json_dumps_message :: "string \<Rightarrow> string" where
  "json_dumps_message s = ''{'' @ json_dumps_string ''message'' @ '': '' @ json_dumps_string s @ ''}''"

text \<open>
  \<^verbatim>\<open>
  def job_completed_notification(file_name):
      publisher = pubsub_v1.PublisherClient()
      topic_path = publisher.topic_path(PROJECT_ID, PUBSUB_TOPIC_NAME)
      message = json.dumps({"message": f"Processing completed for {file_name}"}).encode("utf-8")
      publisher.publish(topic_path, message)
  \<close>
  The output of \<open>json.dumps\<close> is ASCII, so its UTF-8 encoding is the same byte
  sequence.
\<close>

definition job_completed_notification :: "env \<Rightarrow> string \<Rightarrow> unit eff" where
  "job_completed_notification ev file_name =
     (let topic_path = ''projects/'' @ PROJECT_ID @ ''/topics/'' @ PUBSUB_TOPIC_NAME;
          message = json_dumps_message (''Processing completed for '' @ file_name)
      in and_then (record_call (Publish topic_path message))
           (\<lambda>_ w. if publish_fails ev then (Inl PublishError, w)
                   else (Inr (), w\<lparr>published := published w @ [(topic_path, message)]\<rparr>)))"

text \<open>
  \<^verbatim>\<open>
  for root, _, files in os.walk(tmp_path):
      for file in files:
          os.remove(os.path.join(root, file))
  \<close>
\<close>

fun remove_files :: "string \<Rightarrow> string list \<Rightarrow> unit eff" where
  "remove_files root [] = ok ()"
| "remove_files root (file # files) =
     and_then (remove (path_join root file)) (\<lambda>_. remove_files root files)"

fun remove_walk :: "(string \<times> string list \<times> string list) list \<Rightarrow> unit eff" where
  "remove_walk [] = ok ()"
| "remove_walk ((root, dirs, files) # rest) =
     and_then (remove_files root files) (\<lambda>_. remove_walk rest)"

text \<open>
  The body of the loop of \<open>clear_tmp_files\<close>:
  \<^verbatim>\<open>
  if os.path.exists(tmp_path):
      if os.path.isdir(tmp_path):
          for root, _, files in os.walk(tmp_path): ...
          os.rmdir(tmp_path)
      else:
          os.remove(tmp_path)
  \<close>
\<close>

definition clear_tmp_path :: "string \<Rightarrow> unit eff" where
  "clear_tmp_path tmp_path =
     (\<lambda>w. if os_path_exists (fs w) tmp_path
           then (if os_path_isdir (fs w) tmp_path
                 then and_then (remove_walk (os_walk (fs w) tmp_path)) (\<lambda>_. rmdir tmp_path) w
                 else remove tmp_path w)
           else ok () w)"

fun clear_tmp_paths :: "string list \<Rightarrow> unit eff" where
  "clear_tmp_paths [] = ok ()"
| "clear_tmp_paths (tmp_path # rest) =
     and_then (clear_tmp_path tmp_path) (\<lambda>_. clear_tmp_paths rest)"

definition tmp_paths :: "string \<Rightarrow> string list" where
  "tmp_paths base_file_name =
     [''/tmp/'' @ base_file_name @ ''_dash'',
      ''/tmp/'' @ base_file_name @ ''_txt'',
      ''/tmp/'' @ base_file_name @ ''.jpg'']"

definition clear_tmp_files :: "string \<Rightarrow> unit eff" where
  "clear_tmp_files base_file_name = clear_tmp_paths (tmp_paths base_file_name)"

text \<open>
  The \<open>try\<close> block of \<open>transcoder_handler\<close> (lines 23 to 66). A \<open>Blob\<close> object is
  always true, so \<open>not latest_blob\<close> holds exactly for \<open>None\<close>.
\<close>

definition transcoder_handler_try :: "env \<Rightarrow> request \<Rightarrow> handler_return eff" where
  "transcoder_handler_try ev req =
     (if (case get_json req of None \<Rightarrow> True | Some request_json \<Rightarrow> \<not> truthy request_json)
      then ok (\<lparr>statusCode = 400, message = ''Invalid input. JSON body required.'',
                 outputPath = None, error = None\<rparr>, Some 400)
      else
        and_then (get_latest_blob ev SOURCE_BUCKET_NAME)
          (\<lambda>latest_blob. case latest_blob of
             None \<Rightarrow>
               ok (\<lparr>statusCode = 404, message = ''No files found in source bucket.'',
                     outputPath = None, error = None\<rparr>, Some 404)
           | Some blob \<Rightarrow>
               let source_gcs_object = name blob;
                   base_file_name = base_file_name_of source_gcs_object
               in and_then (copy_original_file ev blob base_file_name)
                 (\<lambda>_. let dash_output_path = base_file_name @ ''/dash/'';
                           dash_output_dir = ''/tmp/'' @ base_file_name @ ''_dash''
                  in and_then (generate_dash_files ev base_file_name source_gcs_object
                                 dash_output_path dash_output_dir)
                 (\<lambda>_. and_then (generate_thumbnail ev base_file_name source_gcs_object)
                 (\<lambda>_. let txt_output_dir = ''/tmp/'' @ base_file_name @ ''_txt''
                  in and_then (\<lambda>w. if \<not> os_path_exists (fs w) txt_output_dir
                                    then makedirs txt_output_dir False w else ok () w)
                 (\<lambda>_. and_then (job_completed_notification ev base_file_name)
                 (\<lambda>_. and_then (clear_tmp_files base_file_name)
                 (\<lambda>_. ok (\<lparr>statusCode = 200,
                             message = ''Transcoding and DASH packaging completed for ''
                                         @ source_gcs_object @ ''.'',
                             outputPath = Some dash_output_path, error = None\<rparr>, None)))))))))"

text \<open>
  \<open>transcoder_handler\<close> with its \<open>except Exception\<close> clause (lines 67 to 69).
\<close>

definition transcoder_handler :: "env \<Rightarrow> request \<Rightarrow> world \<Rightarrow> handler_return \<times> world" where
  "transcoder_handler ev req w =
     (case transcoder_handler_try ev req w of
        (Inr r, w') \<Rightarrow> (r, w')
      | (Inl e, w') \<Rightarrow>
          ((\<lparr>statusCode = 500, message = ''Internal server error.'',
             outputPath = None, error = Some e\<rparr>, Some 500), w'))"

section \<open>Auxiliary notions for the proofs\<close>

text \<open>A computation only appends to the call log.\<close>

definition grows :: "'a eff \<Rightarrow> bool" where
  "grows m = (\<forall>w. prefix (calls w) (calls (snd (m w))))"

text \<open>
  The responses of the handler, and the rest of its \<open>try\<close> block after each step; the
  lemma \<open>transcoder_handler_try_eq\<close> shows that \<open>transcoder_handler_try\<close> is their
  composition.
\<close>

definition falsy_request :: "request \<Rightarrow> bool" where
  "falsy_request req = (case get_json req of None \<Rightarrow> True | Some request_json \<Rightarrow> \<not> truthy request_json)"

definition response_400 :: handler_return where
  "response_400 = (\<lparr>statusCode = 400, message = ''Invalid input. JSON body required.'',
                    outputPath = None, error = None\<rparr>, Some 400)"

definition response_404 :: handler_return where
  "response_404 = (\<lparr>statusCode = 404, message = ''No files found in source bucket.'',
                    outputPath = None, error = None\<rparr>, Some 404)"

definition response_200 :: "blob \<Rightarrow> handler_return" where
  "response_200 blob =
     (\<lparr>statusCode = 200,
       message = ''Transcoding and DASH packaging completed for '' @ name blob @ ''.'',
       outputPath = Some (base_file_name_of (name blob) @ ''/dash/''), error = None\<rparr>, None)"

definition response_500 :: "exn \<Rightarrow> handler_return" where
  "response_500 e = (\<lparr>statusCode = 500, message = ''Internal server error.'',
                      outputPath = None, error = Some e\<rparr>, Some 500)"

definition txt_step :: "string \<Rightarrow> unit eff" where
  "txt_step txt_output_dir =
     (\<lambda>w. if \<not> os_path_exists (fs w) txt_output_dir
           then makedirs txt_output_dir False w else ok () w)"

definition after_notify :: "blob \<Rightarrow> handler_return eff" where
  "after_notify blob =
     and_then (clear_tmp_files (base_file_name_of (name blob))) (\<lambda>_. ok (response_200 blob))"

definition after_txt :: "env \<Rightarrow> blob \<Rightarrow> handler_return eff" where
  "after_txt ev blob =
     and_then (job_completed_notification ev (base_file_name_of (name blob)))
       (\<lambda>_. after_notify blob)"

definition after_thumbnail :: "env \<Rightarrow> blob \<Rightarrow> handler_return eff" where
  "after_thumbnail ev blob =
     and_then (txt_step (''/tmp/'' @ base_file_name_of (name blob) @ ''_txt''))
       (\<lambda>_. after_txt ev blob)"

definition after_dash :: "env \<Rightarrow> blob \<Rightarrow> handler_return eff" where
  "after_dash ev blob =
     and_then (generate_thumbnail ev (base_file_name_of (name blob)) (name blob))
       (\<lambda>_. after_thumbnail ev blob)"

definition after_copy :: "env \<Rightarrow> blob \<Rightarrow> handler_return eff" where
  "after_copy ev blob =
     and_then (generate_dash_files ev (base_file_name_of (name blob)) (name blob)
                 (base_file_name_of (name blob) @ ''/dash/'')
                 (''/tmp/'' @ base_file_name_of (name blob) @ ''_dash''))
       (\<lambda>_. after_dash ev blob)"

definition process_blob :: "env \<Rightarrow> blob \<Rightarrow> handler_return eff" where
  "process_blob ev blob =
     and_then (copy_original_file ev blob (base_file_name_of (name blob)))
       (\<lambda>_. after_copy ev blob)"

text \<open>Concrete inputs, for the witnesses and counterexamples.\<close>

definition env_ok :: env where
  "env_ok = \<lparr>list_blobs_fails = False, copy_blob_fails = False, download_result = Downloaded,
     dash_result = Exited 0, dash_files = [(''manifest.mpd'', ''mpd''), (''init-0.mp4'', ''seg'')],
     upload_fails = (\<lambda>_. False), thumbnail_result = Exited 0, thumbnail_file = Some ''jpg'',
     publish_fails = False\<rparr>"

definition req_ok :: request where
  "req_ok = \<lparr>get_json = Some (JObject [(''trigger'', JBool True)])\<rparr>"

definition world_of :: "blob list \<Rightarrow> (string \<times> node) list \<Rightarrow> world" where
  "world_of blobs tmp =
     \<lparr>source_bucket = blobs, destination_bucket = Map.empty,
      fs = Dir [(''tmp'', Dir tmp)], published = [], calls = []\<rparr>"

definition movie :: blob where
  "movie = \<lparr>name = ''movie.mp4'', time_created = 0, content = ''video''\<rparr>"

definition newer :: blob where
  "newer = \<lparr>name = ''clips/newer.mov'', time_created = 5, content = ''film''\<rparr>"

definition empty_world :: world where
  "empty_world = world_of [] []"

definition movie_world :: world where
  "movie_world = world_of [movie] []"

definition two_blobs_world :: world where
  "two_blobs_world = world_of [movie, newer] []"

definition logs :: "(call \<Rightarrow> bool) \<Rightarrow> 'a eff \<Rightarrow> bool" where
  "logs P m = (\<forall>w. \<exists>cs. calls (snd (m w)) = calls w @ cs \<and> list_all P cs)"

definition keeps_published :: "'a eff \<Rightarrow> bool" where
  "keeps_published m = (\<forall>w. published (snd (m w)) = published w)"

definition is_publish :: "call \<Rightarrow> bool" where
  "is_publish c = (case c of Publish _ _ \<Rightarrow> True | _ \<Rightarrow> False)"

definition is_cleanup :: "call \<Rightarrow> bool" where
  "is_cleanup c = (case c of Remove _ \<Rightarrow> True | Rmdir _ \<Rightarrow> True | _ \<Rightarrow> False)"

definition is_upload :: "call \<Rightarrow> bool" where
  "is_upload c = (case c of UploadBlob _ _ _ \<Rightarrow> True | _ \<Rightarrow> False)"

definition is_transcode :: "call \<Rightarrow> bool" where
  "is_transcode c = (case c of RunTranscode _ _ \<Rightarrow> True | _ \<Rightarrow> False)"

definition is_copy :: "call \<Rightarrow> bool" where
  "is_copy c = (case c of CopyBlob _ _ _ \<Rightarrow> True | _ \<Rightarrow> False)"

text \<open>
  Whether a canonical path exists and, if so, whether it is a directory; and the order
  in which a file system keeps every existing path and its kind.
\<close>

definition fs_kind :: "path \<Rightarrow> node \<Rightarrow> bool option" where
  "fs_kind q root = map_option is_dir (fs_lookup q root)"

definition fs_le :: "node \<Rightarrow> node \<Rightarrow> bool" where
  "fs_le r r' = (\<forall>q k. fs_kind q r = Some k \<longrightarrow> fs_kind q r' = Some k)"

definition proper_name :: "string \<Rightarrow> bool" where
  "proper_name n = (n \<noteq> [] \<and> n \<noteq> ''.'' \<and> n \<noteq> ''..'' \<and> CHR ''/'' \<notin> set n)"

text \<open>A computation that, when it returns, has kept every path of the local disk.\<close>

definition fs_grows :: "'a eff \<Rightarrow> bool" where
  "fs_grows m = (\<forall>w x w'. m w = (Inr x, w') \<longrightarrow> fs_le (fs w) (fs w'))"

text \<open>The steps of the \<open>try\<close> block that come before the notification.\<close>

definition pre_publish :: "env \<Rightarrow> blob \<Rightarrow> unit eff" where
  "pre_publish ev blob =
     and_then (copy_original_file ev blob (base_file_name_of (name blob)))
       (\<lambda>_. and_then (generate_dash_files ev (base_file_name_of (name blob)) (name blob)
                        (base_file_name_of (name blob) @ ''/dash/'')
                        (''/tmp/'' @ base_file_name_of (name blob) @ ''_dash''))
       (\<lambda>_. and_then (generate_thumbnail ev (base_file_name_of (name blob)) (name blob))
       (\<lambda>_. txt_step (''/tmp/'' @ base_file_name_of (name blob) @ ''_txt''))))"

definition topic_path :: string where
  "topic_path = ''projects/'' @ PROJECT_ID @ ''/topics/'' @ PUBSUB_TOPIC_NAME"

definition payload :: "blob \<Rightarrow> string" where
  "payload blob = json_dumps_message (''Processing completed for '' @ base_file_name_of (name blob))"

definition env_transcode_fails :: env where
  "env_transcode_fails = env_ok\<lparr>dash_result := Exited 1, dash_files := []\<rparr>"

definition env_publish_fails :: env where
  "env_publish_fails = env_ok\<lparr>publish_fails := True\<rparr>"

definition stale_world :: world where
  "stale_world = world_of [movie] [(''movie_txt'', Dir [(''old'', Dir [])])]"

definition nested_world :: world where
  "nested_world = world_of []
     [(''movie_dash'', Dir [(''manifest.mpd'', File ''mpd''),
                           (''audio'', Dir [(''seg-1.m4s'', File ''seg'')])]),
      (''movie_txt'', Dir []),
      (''movie.jpg'', File ''jpg'')]"

text \<open>
  The path string of a directory followed by the names on the way down from it, and a
  tree being one that a disk can hold: the names of a directory are distinct, and each is
  a name that a directory entry can have.
\<close>

definition cat_path :: "string \<Rightarrow> string list \<Rightarrow> string" where
  "cat_path d ds = d @ concat (map (\<lambda>c. CHR ''/'' # c) ds)"

fun wf_entries :: "(string \<times> node) list \<Rightarrow> bool" where
  "wf_entries es =
     (distinct (map fst es) \<and>
      (\<forall>e \<in> set es. proper_name (fst e)
        \<and> (case snd e of Dir sub \<Rightarrow> wf_entries sub | File _ \<Rightarrow> True)))"

definition wf_node :: "node \<Rightarrow> bool" where
  "wf_node n = (case n of Dir es \<Rightarrow> wf_entries es | File _ \<Rightarrow> True)"

text \<open>
  The regular files below a directory, each as the list of names leading to it from the
  directory, in the order of a top-down walk: the files of the directory itself, then
  those of each subdirectory.
\<close>

fun rel_files :: "(string \<times> node) list \<Rightarrow> string list list" where
  "rel_files es =
     map (\<lambda>e. [fst e]) (filter (\<lambda>e. is_file (snd e)) es) @
     concat (map (\<lambda>e. case snd e of
                         Dir sub \<Rightarrow> map ((#) (fst e)) (rel_files sub)
                       | File _ \<Rightarrow> []) es)"

declare wf_entries.simps [simp del] rel_files.simps [simp del]

text \<open>Uploading the listed files one after the other, each from its path to its key.\<close>

fun upload_list :: "env \<Rightarrow> string \<Rightarrow> (string \<times> string) list \<Rightarrow> unit eff" where
  "upload_list ev bucket_name [] = ok ()"
| "upload_list ev bucket_name ((local_path, key) # rest) =
     and_then (upload_blob ev bucket_name local_path key)
       (\<lambda>_. upload_list ev bucket_name rest)"

section \<open>Facts about the string primitives\<close>

lemma rfind_ge: "- 1 \<le> rfind c s"
  by (induction s) (auto simp: Let_def)

lemma rfind_neg_iff: "rfind c s < 0 \<longleftrightarrow> c \<notin> set s"
  by (induction s) (auto simp: Let_def)

lemma rfind_notin: "c \<notin> set s \<Longrightarrow> rfind c s = - 1"
  using rfind_neg_iff [of c s] rfind_ge [of c s] by simp

lemma rfind_lt_length: "rfind c s < int (length s)"
  by (induction s) (auto simp: Let_def)

lemma rfind_nth: "0 \<le> rfind c s \<Longrightarrow> s ! nat (rfind c s) = c"
proof (induction s)
  case Nil
  then show ?case by simp
next
  case (Cons x xs)
  show ?case
  proof (cases "0 \<le> rfind c xs")
    case True
    then have "nat (rfind c xs + 1) = Suc (nat (rfind c xs))" by simp
    with True Cons.IH show ?thesis by (simp add: Let_def)
  next
    case False
    with Cons.prems show ?thesis by (simp add: Let_def split: if_splits)
  qed
qed

lemma rfind_last: "0 \<le> rfind c s \<Longrightarrow> c \<notin> set (drop (Suc (nat (rfind c s))) s)"
proof (induction s)
  case Nil
  then show ?case by simp
next
  case (Cons x xs)
  show ?case
  proof (cases "0 \<le> rfind c xs")
    case True
    then have "nat (rfind c xs + 1) = Suc (nat (rfind c xs))" by simp
    with True Cons.IH show ?thesis by (simp add: Let_def)
  next
    case False
    then have "c \<notin> set xs" using rfind_neg_iff [of c xs] by simp
    with False Cons.prems show ?thesis by (simp add: Let_def split: if_splits)
  qed
qed

lemma rfind_append_notin: "c \<notin> set t \<Longrightarrow> rfind c (s @ c # t) = int (length s)"
  by (induction s) (auto simp: Let_def rfind_notin)

lemma basename_no_sep: "CHR ''/'' \<notin> set (basename p)"
proof (cases "0 \<le> rfind CHR ''/'' p")
  case True
  then have "nat (rfind CHR ''/'' p + 1) = Suc (nat (rfind CHR ''/'' p))" by simp
  with rfind_last [OF True] show ?thesis by (simp add: basename_def)
next
  case False
  then have "CHR ''/'' \<notin> set p" using rfind_neg_iff [of "CHR ''/''" p] by simp
  then show ?thesis by (auto simp: basename_def dest: in_set_dropD)
qed

lemma basename_id: "CHR ''/'' \<notin> set p \<Longrightarrow> basename p = p"
  by (simp add: basename_def rfind_notin)

lemma splitext_append: "fst (splitext p) @ snd (splitext p) = p"
  by (simp add: splitext_def Let_def)

lemma splitext_ext_shape:
  "snd (splitext p) = [] \<or>
   (hd (snd (splitext p)) = CHR ''.'' \<and> CHR ''.'' \<notin> set (tl (snd (splitext p))))"
proof (cases "rfind CHR ''/'' p < rfind CHR ''.'' p
              \<and> splitext_loop p (rfind CHR ''/'' p + 1) (rfind CHR ''.'' p)")
  case False
  then show ?thesis by (auto simp: splitext_def Let_def)
next
  case True
  let ?d = "rfind CHR ''.'' p"
  from True have d0: "0 \<le> ?d" using rfind_ge [of "CHR ''/''" p] by linarith
  have lt: "nat ?d < length p" using rfind_lt_length [of "CHR ''.''" p] d0 by linarith
  have ext: "snd (splitext p) = drop (nat ?d) p" using True by (simp add: splitext_def Let_def)
  have "drop (nat ?d) p = p ! nat ?d # drop (Suc (nat ?d)) p"
    using lt by (simp add: Cons_nth_drop_Suc)
  with rfind_nth [OF d0] rfind_last [OF d0] ext show ?thesis by simp
qed

lemma base_file_name_of_no_sep: "CHR ''/'' \<notin> set (base_file_name_of k)"
proof -
  have "set (fst (splitext (basename k))) \<subseteq> set (basename k)"
    by (metis Un_upper1 set_append splitext_append)
  with basename_no_sep [of k] show ?thesis by (auto simp: base_file_name_of_def)
qed

lemma base_file_name_of_split:
  "base_file_name_of k @ snd (splitext (basename k)) = basename k"
  by (simp add: base_file_name_of_def splitext_append)

lemma base_file_name_of_twice:
  "base_file_name_of (base_file_name_of k) = base_file_name_of k
     \<longleftrightarrow> snd (splitext (base_file_name_of k)) = []"
proof -
  let ?b = "base_file_name_of k"
  have eq: "base_file_name_of ?b = fst (splitext ?b)"
    by (simp add: base_file_name_of_def [of ?b] basename_id [OF base_file_name_of_no_sep])
  have "fst (splitext ?b) @ snd (splitext ?b) = ?b" by (rule splitext_append)
  then have "fst (splitext ?b) = ?b \<longleftrightarrow> snd (splitext ?b) = []"
    by (metis append_Nil2 append_same_eq self_append_conv)
  with eq show ?thesis by simp
qed

lemma base_clip: "base_file_name_of ''clip.mp4'' = ''clip''"
  by (simp add: base_file_name_of_def basename_def splitext_def splitext_loop.simps Let_def)

lemma base_a_b_mov: "base_file_name_of ''a.b.mov'' = ''a.b''"
  by (simp add: base_file_name_of_def basename_def splitext_def splitext_loop.simps Let_def)

lemma base_a_b: "base_file_name_of ''a.b'' = ''a''"
  by (simp add: base_file_name_of_def basename_def splitext_def splitext_loop.simps Let_def)
section \<open>Where the extension is split off\<close>

lemma splitext_loop_iff:
  "splitext_loop p i d \<longleftrightarrow> (\<exists>j. i \<le> j \<and> j < d \<and> take 1 (drop (nat j) p) \<noteq> ''.'')"
proof (induction p i d rule: splitext_loop.induct)
  case (1 p i d)
  show ?case
  proof (cases "i < d")
    case False
    then show ?thesis by (subst splitext_loop.simps) auto
  next
    case lt: True
    show ?thesis
    proof (cases "take 1 (drop (nat i) p) \<noteq> ''.''")
      case True
      with lt show ?thesis by (subst splitext_loop.simps) auto
    next
      case False
      then have dot: "take 1 (drop (nat i) p) = ''.''" by simp
      have "splitext_loop p i d = splitext_loop p (i + 1) d"
        using lt dot by (subst splitext_loop.simps) simp
      also have "\<dots> \<longleftrightarrow> (\<exists>j. i + 1 \<le> j \<and> j < d \<and> take 1 (drop (nat j) p) \<noteq> ''.'')"
        using 1 [OF lt] False by simp
      also have "\<dots> \<longleftrightarrow> (\<exists>j. i \<le> j \<and> j < d \<and> take 1 (drop (nat j) p) \<noteq> ''.'')"
      proof
        assume "\<exists>j. i + 1 \<le> j \<and> j < d \<and> take 1 (drop (nat j) p) \<noteq> ''.''"
        then obtain j where "i + 1 \<le> j" "j < d" "take 1 (drop (nat j) p) \<noteq> ''.''" by blast
        then have "i \<le> j \<and> j < d \<and> take 1 (drop (nat j) p) \<noteq> ''.''" by simp
        then show "\<exists>j. i \<le> j \<and> j < d \<and> take 1 (drop (nat j) p) \<noteq> ''.''" ..
      next
        assume "\<exists>j. i \<le> j \<and> j < d \<and> take 1 (drop (nat j) p) \<noteq> ''.''"
        then obtain j where j: "i \<le> j" "j < d" "take 1 (drop (nat j) p) \<noteq> ''.''" by blast
        with dot have "j \<noteq> i" by auto
        with j have "i + 1 \<le> j \<and> j < d \<and> take 1 (drop (nat j) p) \<noteq> ''.''" by simp
        then show "\<exists>j. i + 1 \<le> j \<and> j < d \<and> take 1 (drop (nat j) p) \<noteq> ''.''" ..
      qed
      finally show ?thesis .
    qed
  qed
qed

lemma take1_drop: "n < length p \<Longrightarrow> take 1 (drop n p) = [p ! n]"
  by (simp add: take_Suc_conv_app_nth [of 0, simplified] Cons_nth_drop_Suc [symmetric])

lemma splitext_split:
  assumes "CHR ''/'' \<notin> set stem" and "CHR ''/'' \<notin> set ext" and "CHR ''.'' \<notin> set ext"
    and "\<exists>c \<in> set stem. c \<noteq> CHR ''.''"
  shows "splitext (stem @ CHR ''.'' # ext) = (stem, CHR ''.'' # ext)"
proof -
  let ?p = "stem @ CHR ''.'' # ext"
  have sep: "rfind CHR ''/'' ?p = - 1" using assms(1,2) by (simp add: rfind_notin)
  have dot: "rfind CHR ''.'' ?p = int (length stem)" using assms(3) by (rule rfind_append_notin)
  from assms(4) obtain n where n: "n < length stem" "stem ! n \<noteq> CHR ''.''"
    by (auto simp: in_set_conv_nth)
  then have "take 1 (drop n ?p) = [stem ! n]"
    using take1_drop [of n ?p] by (simp add: nth_append)
  with n have "0 \<le> int n \<and> int n < int (length stem) \<and> take 1 (drop (nat (int n)) ?p) \<noteq> ''.''"
    by simp
  then have "splitext_loop ?p 0 (int (length stem))"
    unfolding splitext_loop_iff by blast
  then show ?thesis by (simp add: splitext_def sep dot Let_def)
qed

lemma splitext_none:
  assumes "CHR ''/'' \<notin> set s"
    and "\<nexists>stem ext. s = stem @ CHR ''.'' # ext \<and> CHR ''.'' \<notin> set ext
            \<and> (\<exists>c \<in> set stem. c \<noteq> CHR ''.'')"
  shows "splitext s = (s, [])"
proof (rule ccontr)
  assume a: "splitext s \<noteq> (s, [])"
  let ?d = "rfind CHR ''.'' s"
  have sep: "rfind CHR ''/'' s = - 1" using assms(1) by (rule rfind_notin)
  from a have gt: "- 1 < ?d" and loop: "splitext_loop s 0 ?d"
    by (auto simp: splitext_def sep Let_def split: if_splits)
  from gt have d0: "0 \<le> ?d" by simp
  have lt: "nat ?d < length s" using rfind_lt_length [of "CHR ''.''" s] d0 by linarith
  from loop obtain j where j: "0 \<le> j" "j < ?d" "take 1 (drop (nat j) s) \<noteq> ''.''"
    unfolding splitext_loop_iff by blast
  then have jl: "nat j < nat ?d" by simp
  have "take 1 (drop (nat j) s) = [s ! nat j]"
    using take1_drop [of "nat j" s] jl lt by simp
  with j(3) have nd: "s ! nat j \<noteq> CHR ''.''" by simp
  have "take (nat ?d) s ! nat j = s ! nat j" using jl by simp
  moreover have "nat j < length (take (nat ?d) s)" using jl lt by simp
  ultimately have ex: "\<exists>c \<in> set (take (nat ?d) s). c \<noteq> CHR ''.''"
    using nd by (metis nth_mem)
  have "s = take (nat ?d) s @ s ! nat ?d # drop (Suc (nat ?d)) s"
    using lt by (rule id_take_nth_drop)
  then have "s = take (nat ?d) s @ CHR ''.'' # drop (Suc (nat ?d)) s"
    using rfind_nth [OF d0] by simp
  with rfind_last [OF d0] ex assms(2) show False by blast
qed

lemma no_dot_no_extension:
  assumes "CHR ''.'' \<notin> set s"
  shows "\<nexists>stem ext. s = stem @ CHR ''.'' # ext \<and> CHR ''.'' \<notin> set ext
            \<and> (\<exists>c \<in> set stem. c \<noteq> CHR ''.'')"
proof
  assume "\<exists>stem ext. s = stem @ CHR ''.'' # ext \<and> CHR ''.'' \<notin> set ext
            \<and> (\<exists>c \<in> set stem. c \<noteq> CHR ''.'')"
  then obtain stem ext where "s = stem @ CHR ''.'' # ext" by blast
  then have "CHR ''.'' \<in> set s" by simp
  with assms show False by simp
qed

lemma basename_split:
  "\<exists>dir. k = dir @ basename k \<and> (dir = [] \<or> last dir = CHR ''/'')"
proof (cases "0 \<le> rfind CHR ''/'' k")
  case False
  then have "basename k = k" using rfind_neg_iff [of "CHR ''/''" k] by (simp add: basename_id)
  then show ?thesis by simp
next
  case True
  let ?r = "nat (rfind CHR ''/'' k)"
  have lt: "?r < length k" using rfind_lt_length [of "CHR ''/''" k] True by linarith
  have i: "nat (rfind CHR ''/'' k + 1) = Suc ?r" using True by simp
  have "k = take (Suc ?r) k @ basename k" by (simp add: basename_def i)
  moreover have "last (take (Suc ?r) k) = CHR ''/''"
    using lt rfind_nth [OF True] by (simp add: take_Suc_conv_app_nth)
  ultimately show ?thesis by blast
qed

section \<open>Computations: sequencing and the call log\<close>

lemma and_then_Inr:
  "and_then m f w = (Inr r, w') \<longleftrightarrow> (\<exists>x w1. m w = (Inr x, w1) \<and> f x w1 = (Inr r, w'))"
  by (auto simp: and_then_def split: prod.splits sum.splits)

lemma and_then_Inl:
  "and_then m f w = (Inl e, w') \<longleftrightarrow>
     m w = (Inl e, w') \<or> (\<exists>x w1. m w = (Inr x, w1) \<and> f x w1 = (Inl e, w'))"
  by (auto simp: and_then_def split: prod.splits sum.splits)

lemma and_then_step: "m w = (Inr x, w1) \<Longrightarrow> and_then m f w = f x w1"
  by (simp add: and_then_def)

lemma and_then_fail: "m w = (Inl e, w1) \<Longrightarrow> and_then m f w = (Inl e, w1)"
  by (simp add: and_then_def)

lemma growsD: "grows m \<Longrightarrow> m w = (r, w') \<Longrightarrow> prefix (calls w) (calls w')"
  by (auto simp: grows_def dest: spec [of _ w])

lemma grows_ok [simp]: "grows (ok x)"
  by (simp add: grows_def ok_def)

lemma grows_throw [simp]: "grows (throw e)"
  by (simp add: grows_def throw_def)

lemma grows_record_call [simp]: "grows (record_call c)"
  by (simp add: grows_def record_call_def)

lemma grows_and_then: "grows m \<Longrightarrow> (\<And>x. grows (f x)) \<Longrightarrow> grows (and_then m f)"
proof -
  assume m: "grows m" and f: "\<And>x. grows (f x)"
  show ?thesis
    unfolding grows_def
  proof
    fix w
    obtain r w1 where mw: "m w = (r, w1)" by (cases "m w")
    have p1: "prefix (calls w) (calls w1)" using growsD [OF m mw] .
    show "prefix (calls w) (calls (snd (and_then m f w)))"
    proof (cases r)
      case (Inl e)
      with mw p1 show ?thesis by (simp add: and_then_def)
    next
      case (Inr x)
      obtain r2 w2 where fw: "f x w1 = (r2, w2)" by (cases "f x w1")
      from growsD [OF f fw] p1 have "prefix (calls w) (calls w2)" by (rule prefix_order.order_trans [rotated])
      with mw Inr fw show ?thesis by (simp add: and_then_def)
    qed
  qed
qed

lemma grows_same_calls: "(\<And>w. calls (snd (m w)) = calls w) \<Longrightarrow> grows m"
  by (simp add: grows_def)

lemma grows_on_fs [simp]: "grows (on_fs f)"
  by (rule grows_same_calls) (simp add: on_fs_def split: sum.splits)

lemma grows_makedirs [simp]: "grows (makedirs p b)"
  unfolding makedirs_def
  by (rule grows_and_then, simp, rule grows_same_calls) (simp split: prod.splits option.splits)

lemma grows_remove [simp]: "grows (remove p)"
  unfolding remove_def by (rule grows_and_then) simp_all

lemma grows_rmdir [simp]: "grows (rmdir p)"
  unfolding rmdir_def by (rule grows_and_then) simp_all

lemma grows_lam: "(\<And>w. grows (g w)) \<Longrightarrow> grows (\<lambda>w. g w w)"
  by (simp add: grows_def)

lemma grows_list_blobs [simp]: "grows (list_blobs ev b)"
  unfolding list_blobs_def
  by (rule grows_and_then, simp, rule grows_same_calls) simp

lemma grows_get_latest_blob [simp]: "grows (get_latest_blob ev b)"
  unfolding get_latest_blob_def by (rule grows_and_then) simp_all

lemma grows_copy_original_file [simp]: "grows (copy_original_file ev b n)"
  unfolding copy_original_file_def Let_def
  by (rule grows_and_then, simp, rule grows_same_calls) simp

lemma grows_download_blob [simp]: "grows (download_blob ev b n d)"
  unfolding download_blob_def
  apply (rule grows_and_then, simp)
  apply (rule grows_and_then, simp)
  apply (rule grows_same_calls)
  apply (simp add: on_fs_def split: download_result.splits option.splits sum.splits)
  done

lemma grows_upload_blob [simp]: "grows (upload_blob ev b s d)"
  unfolding upload_blob_def
  by (rule grows_and_then, simp, rule grows_same_calls) (simp split: sum.splits)

lemma grows_upload_files [simp]: "grows (upload_files ev ld b pre root files)"
  by (induction files) (auto intro!: grows_and_then simp: Let_def split: sum.splits)

lemma grows_upload_walk [simp]: "grows (upload_walk ev ld b pre ts)"
  by (induction ts) (auto intro!: grows_and_then)

lemma grows_upload_directory [simp]: "grows (upload_directory ev ld b pre)"
  unfolding upload_directory_def by (rule grows_lam) simp

lemma grows_run_transcode [simp]: "grows (run_transcode ev a b c)"
  unfolding run_transcode_def
  by (rule grows_and_then, simp, rule grows_same_calls) (simp split: proc_result.splits)

lemma grows_run_thumbnail [simp]: "grows (run_thumbnail ev a b)"
  unfolding run_thumbnail_def
  by (rule grows_and_then, simp, rule grows_same_calls)
     (simp split: proc_result.splits option.splits sum.splits)

lemma grows_generate_dash_files [simp]: "grows (generate_dash_files ev a b c d)"
  unfolding generate_dash_files_def Let_def
  by (intro grows_and_then) simp_all

lemma grows_generate_thumbnail [simp]: "grows (generate_thumbnail ev a b)"
  unfolding generate_thumbnail_def Let_def
  by (intro grows_and_then) simp_all

lemma grows_job_completed_notification [simp]: "grows (job_completed_notification ev a)"
  unfolding job_completed_notification_def Let_def
  by (rule grows_and_then, simp, rule grows_same_calls) simp

lemma grows_remove_files [simp]: "grows (remove_files root files)"
  by (induction files) (auto intro!: grows_and_then)

lemma grows_remove_walk [simp]: "grows (remove_walk ts)"
  by (induction ts) (auto intro!: grows_and_then)

lemma grows_app: "grows m \<Longrightarrow> prefix (calls w) (calls (snd (m w)))"
  by (simp add: grows_def)

lemma grows_clear_tmp_path [simp]: "grows (clear_tmp_path p)"
proof -
  have a: "prefix (calls w) (calls (snd (and_then (remove_walk ts) (\<lambda>_. rmdir p) w)))" for ts w
    by (rule grows_app) (auto intro!: grows_and_then)
  have b: "prefix (calls w) (calls (snd (remove p w)))" for w
    by (rule grows_app) simp
  have "prefix (calls w) (calls (snd (clear_tmp_path p w)))" for w
    unfolding clear_tmp_path_def by (simp add: a b ok_def)
  then show ?thesis by (simp add: grows_def)
qed

lemma grows_clear_tmp_paths [simp]: "grows (clear_tmp_paths ps)"
  by (induction ps) (auto intro!: grows_and_then)

lemma grows_clear_tmp_files [simp]: "grows (clear_tmp_files b)"
  by (simp add: clear_tmp_files_def)


section \<open>The handler, step by step\<close>

lemma transcoder_handler_try_eq:
  "transcoder_handler_try ev req =
     (if falsy_request req then ok response_400
      else and_then (get_latest_blob ev SOURCE_BUCKET_NAME)
             (\<lambda>latest_blob. case latest_blob of
                None \<Rightarrow> ok response_404
              | Some blob \<Rightarrow> process_blob ev blob))"
  unfolding transcoder_handler_try_def process_blob_def falsy_request_def after_copy_def
    after_dash_def after_thumbnail_def after_txt_def after_notify_def txt_step_def
    response_400_def response_404_def response_200_def Let_def
  by (rule refl)

lemma transcoder_handler_eq:
  "transcoder_handler ev req w =
     (case transcoder_handler_try ev req w of
        (Inr r, w') \<Rightarrow> (r, w') | (Inl e, w') \<Rightarrow> (response_500 e, w'))"
  unfolding transcoder_handler_def response_500_def by (rule refl)

lemma get_latest_blob_run:
  "get_latest_blob ev SOURCE_BUCKET_NAME w =
     (if list_blobs_fails ev then Inl StorageError
      else Inr (py_max time_created (source_bucket w)),
      w\<lparr>calls := calls w @ [ListBlobs SOURCE_BUCKET_NAME]\<rparr>)"
  by (simp add: get_latest_blob_def list_blobs_def and_then_def record_call_def ok_def)

lemma copy_original_file_run:
  "copy_original_file ev b n w =
     (if copy_blob_fails ev then Inl StorageError else Inr (),
      w\<lparr>calls := calls w @ [CopyBlob (name b) DESTINATION_BUCKET_NAME (n @ ''/original/'' @ name b)],
        destination_bucket := if copy_blob_fails ev then destination_bucket w
           else (destination_bucket w)((n @ ''/original/'' @ name b) \<mapsto> content b)\<rparr>)"
  by (simp add: copy_original_file_def and_then_def record_call_def Let_def)

lemma grows_txt_step [simp]: "grows (txt_step p)"
proof -
  have "prefix (calls w) (calls (snd (txt_step p w)))" for w
    using grows_app [OF grows_makedirs, of w p False] by (simp add: txt_step_def ok_def)
  then show ?thesis by (simp add: grows_def)
qed

lemma grows_after_notify [simp]: "grows (after_notify b)"
  unfolding after_notify_def by (intro grows_and_then) simp_all

lemma grows_after_txt [simp]: "grows (after_txt ev b)"
  unfolding after_txt_def by (intro grows_and_then) simp_all

lemma grows_after_thumbnail [simp]: "grows (after_thumbnail ev b)"
  unfolding after_thumbnail_def by (intro grows_and_then) simp_all

lemma grows_after_dash [simp]: "grows (after_dash ev b)"
  unfolding after_dash_def by (intro grows_and_then) simp_all

lemma grows_after_copy [simp]: "grows (after_copy ev b)"
  unfolding after_copy_def by (intro grows_and_then) simp_all

lemma grows_process_blob [simp]: "grows (process_blob ev b)"
  unfolding process_blob_def by (intro grows_and_then) simp_all

lemma process_blob_first_call:
  assumes "process_blob ev b w = (r, w')"
  shows "prefix (calls w @ [CopyBlob (name b) DESTINATION_BUCKET_NAME
                   (base_file_name_of (name b) @ ''/original/'' @ name b)]) (calls w')"
proof (cases "copy_blob_fails ev")
  case True
  with assms show ?thesis
    by (auto simp: process_blob_def copy_original_file_run and_then_def)
next
  case False
  obtain w1 where c: "copy_original_file ev b (base_file_name_of (name b)) w = (Inr (), w1)"
    and calls1: "calls w1 = calls w @ [CopyBlob (name b) DESTINATION_BUCKET_NAME
                   (base_file_name_of (name b) @ ''/original/'' @ name b)]"
    using False by (simp add: copy_original_file_run)
  from assms c have "after_copy ev b w1 = (r, w')"
    by (simp add: process_blob_def and_then_def)
  from growsD [OF grows_after_copy this] calls1 show ?thesis by simp
qed

lemma process_blob_Inr:
  assumes "process_blob ev b w = (Inr r, w')"
  shows "r = response_200 b"
  using assms unfolding process_blob_def after_copy_def after_dash_def after_thumbnail_def
    after_txt_def after_notify_def
  by (auto simp: and_then_Inr ok_def)

text \<open>The possible results of the handler.\<close>

lemma transcoder_handler_cases:
  assumes "transcoder_handler ev req w = (r, w')"
  shows "(falsy_request req \<and> r = response_400 \<and> w' = w)
       \<or> (\<not> falsy_request req \<and> list_blobs_fails ev \<and> r = response_500 StorageError
            \<and> w' = w\<lparr>calls := calls w @ [ListBlobs SOURCE_BUCKET_NAME]\<rparr>)
       \<or> (\<not> falsy_request req \<and> \<not> list_blobs_fails ev \<and> source_bucket w = []
            \<and> r = response_404 \<and> w' = w\<lparr>calls := calls w @ [ListBlobs SOURCE_BUCKET_NAME]\<rparr>)
       \<or> (\<not> falsy_request req \<and> \<not> list_blobs_fails ev \<and>
            (\<exists>b. py_max time_created (source_bucket w) = Some b \<and>
              (\<exists>x. process_blob ev b (w\<lparr>calls := calls w @ [ListBlobs SOURCE_BUCKET_NAME]\<rparr>) = (x, w')
                 \<and> r = (case x of Inr r' \<Rightarrow> r' | Inl e \<Rightarrow> response_500 e))))"
proof (cases "falsy_request req")
  case True
  with assms show ?thesis
    by (simp add: transcoder_handler_eq transcoder_handler_try_eq ok_def)
next
  case nf: False
  show ?thesis
  proof (cases "list_blobs_fails ev")
    case True
    with nf assms show ?thesis
      by (auto simp: transcoder_handler_eq transcoder_handler_try_eq and_then_def get_latest_blob_run)
  next
    case lf: False
    show ?thesis
    proof (cases "source_bucket w")
      case Nil
      with nf lf assms show ?thesis
        by (auto simp: transcoder_handler_eq transcoder_handler_try_eq and_then_def
            get_latest_blob_run ok_def)
    next
      case (Cons b bs)
      obtain x w2 where p: "process_blob ev (max_loop time_created b bs)
                              (w\<lparr>calls := calls w @ [ListBlobs SOURCE_BUCKET_NAME]\<rparr>) = (x, w2)"
        by (cases "process_blob ev (max_loop time_created b bs)
                              (w\<lparr>calls := calls w @ [ListBlobs SOURCE_BUCKET_NAME]\<rparr>)")
      with nf lf assms Cons show ?thesis
        by (cases x) (auto simp: transcoder_handler_eq transcoder_handler_try_eq and_then_def
            get_latest_blob_run)
    qed
  qed
qed


section \<open>Rewrite rules for running the model on a given world\<close>

lemma and_then_app:
  "and_then m f w = (case m w of (Inl e, w') \<Rightarrow> (Inl e, w') | (Inr x, w') \<Rightarrow> f x w')"
  by (simp add: and_then_def)

lemma ok_app: "ok x w = (Inr x, w)"
  by (simp add: ok_def)

lemma throw_app: "throw e w = (Inl e, w)"
  by (simp add: throw_def)

lemma record_call_app: "record_call c w = (Inr (), w\<lparr>calls := calls w @ [c]\<rparr>)"
  by (simp add: record_call_def)

lemma on_fs_app:
  "on_fs f w = (case f (fs w) of Inl e \<Rightarrow> (Inl e, w) | Inr r \<Rightarrow> (Inr (), w\<lparr>fs := r\<rparr>))"
  by (simp add: on_fs_def)

lemma makedirs_app:
  "makedirs p exist_ok w =
     (case os_makedirs p exist_ok (fs w) of
        (Some e, r) \<Rightarrow> (Inl e, w\<lparr>calls := calls w @ [Makedirs p], fs := r\<rparr>)
      | (None, r) \<Rightarrow> (Inr (), w\<lparr>calls := calls w @ [Makedirs p], fs := r\<rparr>))"
  by (simp add: makedirs_def and_then_def record_call_def split: prod.splits option.splits)

lemma remove_app:
  "remove p w =
     (case os_remove p (fs w) of
        Inl e \<Rightarrow> (Inl e, w\<lparr>calls := calls w @ [Remove p]\<rparr>)
      | Inr r \<Rightarrow> (Inr (), w\<lparr>calls := calls w @ [Remove p], fs := r\<rparr>))"
  by (simp add: remove_def and_then_def record_call_def on_fs_def split: sum.splits)

lemma rmdir_app:
  "rmdir p w =
     (case os_rmdir p (fs w) of
        Inl e \<Rightarrow> (Inl e, w\<lparr>calls := calls w @ [Rmdir p]\<rparr>)
      | Inr r \<Rightarrow> (Inr (), w\<lparr>calls := calls w @ [Rmdir p], fs := r\<rparr>))"
  by (simp add: rmdir_def and_then_def record_call_def on_fs_def split: sum.splits)

lemma download_blob_app:
  "download_blob ev bucket_name source_blob_name destination_file_name w =
     (case write_file destination_file_name [] (fs w) of
        Inl e \<Rightarrow> (Inl e, w\<lparr>calls := calls w @ [DownloadBlob bucket_name source_blob_name destination_file_name]\<rparr>)
      | Inr r0 \<Rightarrow>
         (case (case download_result ev of
                  DownloadFailed removed \<Rightarrow> if removed then None else Some None
                | Downloaded \<Rightarrow>
                    (case (if bucket_name = SOURCE_BUCKET_NAME
                           then find (\<lambda>b. name b = source_blob_name) (source_bucket w) else None) of
                       None \<Rightarrow> None | Some b \<Rightarrow> Some (Some (content b)))) of
            None \<Rightarrow>
              (Inl StorageError,
               w\<lparr>calls := calls w @ [DownloadBlob bucket_name source_blob_name destination_file_name],
                 fs := (case os_remove destination_file_name r0 of Inl _ \<Rightarrow> r0 | Inr r \<Rightarrow> r)\<rparr>)
          | Some None \<Rightarrow>
              (Inl StorageError,
               w\<lparr>calls := calls w @ [DownloadBlob bucket_name source_blob_name destination_file_name],
                 fs := r0\<rparr>)
          | Some (Some c) \<Rightarrow>
              (case write_file destination_file_name c r0 of
                 Inl e \<Rightarrow> (Inl e, w\<lparr>calls := calls w @ [DownloadBlob bucket_name source_blob_name destination_file_name], fs := r0\<rparr>)
               | Inr r \<Rightarrow> (Inr (), w\<lparr>calls := calls w @ [DownloadBlob bucket_name source_blob_name destination_file_name], fs := r\<rparr>))))"
  by (simp add: download_blob_def and_then_def record_call_def on_fs_def
      split: sum.splits download_result.splits option.splits)

lemma upload_blob_app:
  "upload_blob ev bucket_name source_file_name destination_blob_name w =
     (case read_file source_file_name (fs w) of
        Inl e \<Rightarrow> (Inl e, w\<lparr>calls := calls w @ [UploadBlob bucket_name source_file_name destination_blob_name]\<rparr>)
      | Inr c \<Rightarrow>
          if upload_fails ev destination_blob_name \<or> bucket_name \<noteq> DESTINATION_BUCKET_NAME
          then (Inl StorageError, w\<lparr>calls := calls w @ [UploadBlob bucket_name source_file_name destination_blob_name]\<rparr>)
          else (Inr (), w\<lparr>calls := calls w @ [UploadBlob bucket_name source_file_name destination_blob_name],
                           destination_bucket := (destination_bucket w)(destination_blob_name \<mapsto> c)\<rparr>))"
  by (simp add: upload_blob_def and_then_def record_call_def split: sum.splits)

lemma run_transcode_app:
  "run_transcode ev i d m w =
     (case dash_result ev of
        NotStarted \<Rightarrow> (Inl SpawnError, w\<lparr>calls := calls w @ [RunTranscode i m]\<rparr>)
      | Exited rc \<Rightarrow>
          (if rc \<noteq> 0 then Inl (CalledProcessError rc) else Inr (),
           w\<lparr>calls := calls w @ [RunTranscode i m],
             fs := write_outputs d (dash_files ev) (fs w)\<rparr>))"
  by (simp add: run_transcode_def and_then_def record_call_def split: proc_result.splits)

lemma run_thumbnail_app:
  "run_thumbnail ev i t w =
     (case thumbnail_result ev of
        NotStarted \<Rightarrow> (Inl SpawnError, w\<lparr>calls := calls w @ [RunThumbnail i t]\<rparr>)
      | Exited rc \<Rightarrow>
          (if rc \<noteq> 0 then Inl (CalledProcessError rc) else Inr (),
           w\<lparr>calls := calls w @ [RunThumbnail i t],
             fs := (case thumbnail_file ev of
                      None \<Rightarrow> fs w
                    | Some c \<Rightarrow> (case write_file t c (fs w) of Inl _ \<Rightarrow> fs w | Inr r \<Rightarrow> r))\<rparr>))"
  by (simp add: run_thumbnail_def and_then_def record_call_def
      split: proc_result.splits option.splits sum.splits)

lemma job_completed_notification_app:
  "job_completed_notification ev file_name w =
     (if publish_fails ev then Inl PublishError else Inr (),
      w\<lparr>calls := calls w @ [Publish (''projects/'' @ PROJECT_ID @ ''/topics/'' @ PUBSUB_TOPIC_NAME)
                                 (json_dumps_message (''Processing completed for '' @ file_name))],
        published := if publish_fails ev then published w
                     else published w @ [(''projects/'' @ PROJECT_ID @ ''/topics/'' @ PUBSUB_TOPIC_NAME,
                                          json_dumps_message (''Processing completed for '' @ file_name))]\<rparr>)"
  by (simp add: job_completed_notification_def and_then_def record_call_def Let_def)

lemma generate_dash_files_app:
  "generate_dash_files ev base_file_name source_blob_name output_path output_dir w =
     and_then (makedirs output_dir True)
       (\<lambda>_. and_then (download_blob ev SOURCE_BUCKET_NAME source_blob_name (''/tmp/'' @ source_blob_name))
         (\<lambda>_. and_then (run_transcode ev (''/tmp/'' @ source_blob_name) output_dir (output_dir @ ''/manifest.mpd''))
           (\<lambda>_. upload_directory ev output_dir DESTINATION_BUCKET_NAME output_path))) w"
  by (simp add: generate_dash_files_def Let_def)

lemma generate_thumbnail_app:
  "generate_thumbnail ev base_file_name source_blob_name w =
     and_then (run_thumbnail ev (''/tmp/'' @ source_blob_name) (''/tmp/'' @ base_file_name @ ''.jpg''))
       (\<lambda>_. upload_blob ev DESTINATION_BUCKET_NAME (''/tmp/'' @ base_file_name @ ''.jpg'')
               (base_file_name @ ''/thumbnail/'' @ base_file_name @ ''.jpg'')) w"
  by (simp add: generate_thumbnail_def Let_def)

lemma upload_directory_app:
  "upload_directory ev local_directory bucket_name destination_prefix w =
     upload_walk ev local_directory bucket_name destination_prefix (os_walk (fs w) local_directory) w"
  by (simp add: upload_directory_def)

lemma clear_tmp_path_app:
  "clear_tmp_path tmp_path w =
     (if os_path_exists (fs w) tmp_path
      then (if os_path_isdir (fs w) tmp_path
            then and_then (remove_walk (os_walk (fs w) tmp_path)) (\<lambda>_. rmdir tmp_path) w
            else remove tmp_path w)
      else ok () w)"
  by (simp add: clear_tmp_path_def)

lemma clear_tmp_files_app:
  "clear_tmp_files base_file_name w = clear_tmp_paths (tmp_paths base_file_name) w"
  by (simp add: clear_tmp_files_def)

lemma txt_step_app:
  "txt_step p w = (if \<not> os_path_exists (fs w) p then makedirs p False w else ok () w)"
  by (simp add: txt_step_def)

lemma process_blob_app:
  "process_blob ev blob w =
     and_then (copy_original_file ev blob (base_file_name_of (name blob))) (\<lambda>_. after_copy ev blob) w"
  by (simp add: process_blob_def)

lemma after_copy_app:
  "after_copy ev blob w =
     and_then (generate_dash_files ev (base_file_name_of (name blob)) (name blob)
                 (base_file_name_of (name blob) @ ''/dash/'')
                 (''/tmp/'' @ base_file_name_of (name blob) @ ''_dash''))
       (\<lambda>_. after_dash ev blob) w"
  by (simp add: after_copy_def)

lemma after_dash_app:
  "after_dash ev blob w =
     and_then (generate_thumbnail ev (base_file_name_of (name blob)) (name blob))
       (\<lambda>_. after_thumbnail ev blob) w"
  by (simp add: after_dash_def)

lemma after_thumbnail_app:
  "after_thumbnail ev blob w =
     and_then (txt_step (''/tmp/'' @ base_file_name_of (name blob) @ ''_txt''))
       (\<lambda>_. after_txt ev blob) w"
  by (simp add: after_thumbnail_def)

lemma after_txt_app:
  "after_txt ev blob w =
     and_then (job_completed_notification ev (base_file_name_of (name blob)))
       (\<lambda>_. after_notify blob) w"
  by (simp add: after_txt_def)

lemma after_notify_app:
  "after_notify blob w =
     and_then (clear_tmp_files (base_file_name_of (name blob))) (\<lambda>_. ok (response_200 blob)) w"
  by (simp add: after_notify_def)

lemma transcoder_handler_try_app:
  "transcoder_handler_try ev req w =
     (if falsy_request req then ok response_400 w
      else and_then (get_latest_blob ev SOURCE_BUCKET_NAME)
             (\<lambda>latest_blob. case latest_blob of
                None \<Rightarrow> ok response_404
              | Some blob \<Rightarrow> process_blob ev blob) w)"
  by (simp add: transcoder_handler_try_eq)

lemmas run_app = transcoder_handler_eq transcoder_handler_try_app get_latest_blob_run
  process_blob_app copy_original_file_run after_copy_app after_dash_app after_thumbnail_app
  after_txt_app after_notify_app generate_dash_files_app generate_thumbnail_app
  upload_directory_app clear_tmp_files_app clear_tmp_path_app txt_step_app
  makedirs_app remove_app rmdir_app download_blob_app upload_blob_app run_transcode_app
  run_thumbnail_app job_completed_notification_app and_then_app ok_app throw_app
  tmp_paths_def falsy_request_def


lemmas fs_defs = os_path_exists_def os_path_isdir_def os_makedirs_def os_walk_def os_remove_def
  os_rmdir_def write_file_def read_file_def resolve_def is_dir_def is_file_def path_join_def
  relpath_def abspath_def normpath_def getcwd_def
  base_file_name_of_def basename_def splitext_def splitext_loop.simps
  json_dumps_message_def json_dumps_string_def json_escape_char_def

section \<open>Selection of the latest object\<close>

lemma max_loop_split:
  "\<exists>pre post. m # xs = pre @ max_loop key m xs # post
      \<and> (\<forall>x\<in>set pre. key x < key (max_loop key m xs))
      \<and> (\<forall>x\<in>set post. key x \<le> key (max_loop key m xs))"
proof (induction xs arbitrary: m)
  case Nil
  show ?case by (intro exI [of _ "[]"]) simp
next
  case (Cons x xs)
  define m' where "m' = (if key m < key x then x else m)"
  define b where "b = max_loop key m' xs"
  obtain pre post where split: "m' # xs = pre @ b # post"
    and lt: "\<forall>y\<in>set pre. key y < key b"
    and le: "\<forall>y\<in>set post. key y \<le> key b"
    using Cons.IH [of m'] unfolding b_def by blast
  have b: "max_loop key m (x # xs) = b" by (simp add: b_def m'_def)
  show ?case
  proof (cases "key m < key x")
    case True
    then have split': "x # xs = pre @ b # post" using split by (simp add: m'_def)
    have "key x \<le> key b"
    proof (cases pre)
      case Nil
      with split' have "x = b" by simp
      then show ?thesis by simp
    next
      case (Cons p ps)
      with split' have "x \<in> set pre" by simp
      with lt show ?thesis by auto
    qed
    with True have "key m < key b" by simp
    with lt have "\<forall>y\<in>set (m # pre). key y < key b" by simp
    moreover have "m # x # xs = (m # pre) @ b # post" using split' by simp
    ultimately show ?thesis unfolding b using le by blast
  next
    case False
    then have split': "m # xs = pre @ b # post" using split by (simp add: m'_def)
    show ?thesis
    proof (cases pre)
      case Nil
      with split' have bm: "b = m" and post: "post = xs" by simp_all
      have "m # x # xs = [] @ b # (x # xs)" using bm by simp
      moreover have "\<forall>y\<in>set (x # xs). key y \<le> key b"
        using False le bm post by auto
      moreover have "\<forall>y\<in>set []. key y < key b" by simp
      ultimately show ?thesis unfolding b by blast
    next
      case (Cons p ps)
      with split' have p: "p = m" and xs: "xs = ps @ b # post" by simp_all
      have "key m < key b" using lt Cons p by simp
      with False have "key x < key b" by simp
      with lt Cons p have "\<forall>y\<in>set (m # x # ps). key y < key b" by simp
      moreover have "m # x # xs = (m # x # ps) @ b # post" using xs by simp
      ultimately show ?thesis unfolding b using le by blast
    qed
  qed
qed

lemma py_max_split:
  assumes "xs \<noteq> []"
  shows "\<exists>pre b post. xs = pre @ b # post \<and> py_max key xs = Some b
      \<and> (\<forall>x\<in>set pre. key x < key b) \<and> (\<forall>x\<in>set post. key x \<le> key b)"
proof -
  from assms obtain m ys where xs: "xs = m # ys" by (cases xs) auto
  from max_loop_split [of m ys key] xs show ?thesis by auto
qed

section \<open>Which calls a computation logs\<close>

lemma logsD:
  "logs P m \<Longrightarrow> m w = (r, w') \<Longrightarrow> \<exists>cs. calls w' = calls w @ cs \<and> list_all P cs"
  by (auto simp: logs_def dest: spec [of _ w])

lemma logsI:
  "(\<And>w. \<exists>cs. calls (snd (m w)) = calls w @ cs \<and> list_all P cs) \<Longrightarrow> logs P m"
  by (simp add: logs_def)

lemma logs_weaken: "logs P m \<Longrightarrow> (\<And>c. P c \<Longrightarrow> Q c) \<Longrightarrow> logs Q m"
  unfolding logs_def list_all_iff by blast

lemma logs_ok [simp]: "logs P (ok x)"
  by (simp add: logs_def ok_def)

lemma logs_throw [simp]: "logs P (throw e)"
  by (simp add: logs_def throw_def)

lemma logs_record_call: "P c \<Longrightarrow> logs P (record_call c)"
  by (simp add: logs_def record_call_def)

lemma logs_same_calls: "(\<And>w. calls (snd (m w)) = calls w) \<Longrightarrow> logs P m"
  by (simp add: logs_def)

lemma logs_one:
  "(\<And>w. calls (snd (m w)) = calls w @ [c]) \<Longrightarrow> P c \<Longrightarrow> logs P m"
  by (simp add: logs_def)

lemma logs_and_then:
  assumes m: "logs P m" and f: "\<And>x. logs P (f x)"
  shows "logs P (and_then m f)"
proof (rule logsI)
  fix w
  obtain r w1 where mw: "m w = (r, w1)" by (cases "m w")
  from logsD [OF m mw] obtain cs where c1: "calls w1 = calls w @ cs" "list_all P cs" by blast
  show "\<exists>cs. calls (snd (and_then m f w)) = calls w @ cs \<and> list_all P cs"
  proof (cases r)
    case (Inl e)
    with mw c1 show ?thesis by (simp add: and_then_app)
  next
    case (Inr x)
    obtain r2 w2 where fw: "f x w1 = (r2, w2)" by (cases "f x w1")
    from logsD [OF f fw] obtain ds where "calls w2 = calls w1 @ ds" "list_all P ds" by blast
    with c1 have "calls w2 = calls w @ (cs @ ds) \<and> list_all P (cs @ ds)" by simp
    with mw Inr fw show ?thesis by (auto simp: and_then_app simp del: append_assoc)
  qed
qed

lemma logs_app: "logs P m \<Longrightarrow> \<exists>cs. calls (snd (m w)) = calls w @ cs \<and> list_all P cs"
  by (simp add: logs_def)

lemma logs_makedirs: "P (Makedirs p) \<Longrightarrow> logs P (makedirs p b)"
  by (rule logs_one [of _ "Makedirs p"]) (simp_all add: makedirs_app split: prod.splits option.splits)

lemma logs_remove: "P (Remove p) \<Longrightarrow> logs P (remove p)"
  by (rule logs_one [of _ "Remove p"]) (simp_all add: remove_app split: sum.splits)

lemma logs_rmdir: "P (Rmdir p) \<Longrightarrow> logs P (rmdir p)"
  by (rule logs_one [of _ "Rmdir p"]) (simp_all add: rmdir_app split: sum.splits)

lemma logs_get_latest_blob: "P (ListBlobs SOURCE_BUCKET_NAME) \<Longrightarrow> logs P (get_latest_blob ev SOURCE_BUCKET_NAME)"
  by (rule logs_one [of _ "ListBlobs SOURCE_BUCKET_NAME"]) (simp_all add: get_latest_blob_run)

lemma logs_copy_original_file:
  "P (CopyBlob (name b) DESTINATION_BUCKET_NAME (n @ ''/original/'' @ name b))
     \<Longrightarrow> logs P (copy_original_file ev b n)"
  by (rule logs_one [of _ "CopyBlob (name b) DESTINATION_BUCKET_NAME (n @ ''/original/'' @ name b)"])
     (simp_all add: copy_original_file_run)

lemma logs_download_blob: "P (DownloadBlob b n d) \<Longrightarrow> logs P (download_blob ev b n d)"
  by (rule logs_one [of _ "DownloadBlob b n d"])
     (simp_all add: download_blob_app split: sum.splits option.splits)

lemma logs_upload_blob: "P (UploadBlob b s d) \<Longrightarrow> logs P (upload_blob ev b s d)"
  by (rule logs_one [of _ "UploadBlob b s d"]) (simp_all add: upload_blob_app split: sum.splits)

lemma logs_run_transcode: "P (RunTranscode i m) \<Longrightarrow> logs P (run_transcode ev i d m)"
  by (rule logs_one [of _ "RunTranscode i m"]) (simp_all add: run_transcode_app split: proc_result.splits)

lemma logs_run_thumbnail: "P (RunThumbnail i t) \<Longrightarrow> logs P (run_thumbnail ev i t)"
  by (rule logs_one [of _ "RunThumbnail i t"]) (simp_all add: run_thumbnail_app split: proc_result.splits)

lemma logs_job_completed_notification:
  "(\<And>t m. P (Publish t m)) \<Longrightarrow> logs P (job_completed_notification ev n)"
  by (rule logs_one [of _ "Publish (''projects/'' @ PROJECT_ID @ ''/topics/'' @ PUBSUB_TOPIC_NAME)
        (json_dumps_message (''Processing completed for '' @ n))"])
     (simp_all add: job_completed_notification_app)

lemma logs_upload_files:
  "(\<And>b s d. P (UploadBlob b s d)) \<Longrightarrow> logs P (upload_files ev ld b pre root files)"
  by (induction files) (auto intro!: logs_and_then logs_upload_blob simp: Let_def split: sum.splits)

lemma logs_upload_walk:
  "(\<And>b s d. P (UploadBlob b s d)) \<Longrightarrow> logs P (upload_walk ev ld b pre ts)"
  by (induction ts) (auto intro!: logs_and_then logs_upload_files)

lemma logs_upload_directory:
  assumes "\<And>b s d. P (UploadBlob b s d)"
  shows "logs P (upload_directory ev ld b pre)"
proof (rule logsI)
  fix w
  show "\<exists>cs. calls (snd (upload_directory ev ld b pre w)) = calls w @ cs \<and> list_all P cs"
    unfolding upload_directory_app by (rule logs_app [OF logs_upload_walk]) (rule assms)
qed

lemma logs_generate_dash_files:
  assumes "\<And>p. P (Makedirs p)" "\<And>b n d. P (DownloadBlob b n d)" "\<And>i m. P (RunTranscode i m)"
    "\<And>b s d. P (UploadBlob b s d)"
  shows "logs P (generate_dash_files ev a b c d)"
  unfolding generate_dash_files_def Let_def
  by (intro logs_and_then logs_makedirs logs_download_blob logs_run_transcode
      logs_upload_directory assms)

lemma logs_generate_thumbnail:
  assumes "\<And>i t. P (RunThumbnail i t)" "\<And>b s d. P (UploadBlob b s d)"
  shows "logs P (generate_thumbnail ev a b)"
  unfolding generate_thumbnail_def Let_def
  by (intro logs_and_then logs_run_thumbnail logs_upload_blob assms)

lemma logs_txt_step:
  assumes "\<And>p. P (Makedirs p)"
  shows "logs P (txt_step p)"
proof (rule logsI)
  fix w
  show "\<exists>cs. calls (snd (txt_step p w)) = calls w @ cs \<and> list_all P cs"
    using logs_app [OF logs_makedirs [of P p False], of w] assms
    by (simp add: txt_step_app ok_app)
qed

lemma logs_remove_files: "(\<And>p. P (Remove p)) \<Longrightarrow> logs P (remove_files root files)"
  by (induction files) (auto intro!: logs_and_then logs_remove)

lemma logs_remove_walk: "(\<And>p. P (Remove p)) \<Longrightarrow> logs P (remove_walk ts)"
  by (induction ts) (auto intro!: logs_and_then logs_remove_files)

lemma logs_clear_tmp_path:
  assumes "\<And>p. P (Remove p)" "\<And>p. P (Rmdir p)"
  shows "logs P (clear_tmp_path p)"
proof (rule logsI)
  fix w
  have a: "\<exists>cs. calls (snd (and_then (remove_walk ts) (\<lambda>_. rmdir p) w)) = calls w @ cs \<and> list_all P cs" for ts
    by (rule logs_app) (intro logs_and_then logs_remove_walk logs_rmdir assms)
  have b: "\<exists>cs. calls (snd (remove p w)) = calls w @ cs \<and> list_all P cs"
    by (rule logs_app) (intro logs_remove assms)
  show "\<exists>cs. calls (snd (clear_tmp_path p w)) = calls w @ cs \<and> list_all P cs"
    unfolding clear_tmp_path_app using a b by (simp add: ok_app)
qed

lemma logs_clear_tmp_paths:
  "(\<And>p. P (Remove p)) \<Longrightarrow> (\<And>p. P (Rmdir p)) \<Longrightarrow> logs P (clear_tmp_paths ps)"
  by (induction ps) (auto intro!: logs_and_then logs_clear_tmp_path)

lemma logs_clear_tmp_files:
  "(\<And>p. P (Remove p)) \<Longrightarrow> (\<And>p. P (Rmdir p)) \<Longrightarrow> logs P (clear_tmp_files b)"
  unfolding clear_tmp_files_def by (rule logs_clear_tmp_paths)

section \<open>Which computations publish\<close>

lemma keeps_publishedD: "keeps_published m \<Longrightarrow> m w = (r, w') \<Longrightarrow> published w' = published w"
  by (auto simp: keeps_published_def dest: spec [of _ w])

lemma keeps_published_app: "keeps_published m \<Longrightarrow> published (snd (m w)) = published w"
  by (simp add: keeps_published_def)

lemma keeps_published_ok [simp]: "keeps_published (ok x)"
  by (simp add: keeps_published_def ok_def)

lemma keeps_published_throw [simp]: "keeps_published (throw e)"
  by (simp add: keeps_published_def throw_def)

lemma keeps_published_and_then:
  assumes m: "keeps_published m" and f: "\<And>x. keeps_published (f x)"
  shows "keeps_published (and_then m f)"
  unfolding keeps_published_def
proof
  fix w
  obtain r w1 where mw: "m w = (r, w1)" by (cases "m w")
  note p1 = keeps_publishedD [OF m mw]
  show "published (snd (and_then m f w)) = published w"
  proof (cases r)
    case (Inl e)
    with mw p1 show ?thesis by (simp add: and_then_app)
  next
    case (Inr x)
    with mw p1 keeps_published_app [OF f, of x w1] show ?thesis by (simp add: and_then_app)
  qed
qed

lemma keeps_published_makedirs [simp]: "keeps_published (makedirs p b)"
  by (simp add: keeps_published_def makedirs_app split: prod.splits option.splits)

lemma keeps_published_remove [simp]: "keeps_published (remove p)"
  by (simp add: keeps_published_def remove_app split: sum.splits)

lemma keeps_published_rmdir [simp]: "keeps_published (rmdir p)"
  by (simp add: keeps_published_def rmdir_app split: sum.splits)

lemma keeps_published_copy_original_file [simp]: "keeps_published (copy_original_file ev b n)"
  by (simp add: keeps_published_def copy_original_file_run)

lemma keeps_published_download_blob [simp]: "keeps_published (download_blob ev b n d)"
  by (simp add: keeps_published_def download_blob_app split: sum.splits option.splits)

lemma keeps_published_upload_blob [simp]: "keeps_published (upload_blob ev b s d)"
  by (simp add: keeps_published_def upload_blob_app split: sum.splits)

lemma keeps_published_run_transcode [simp]: "keeps_published (run_transcode ev i d m)"
  by (simp add: keeps_published_def run_transcode_app split: proc_result.splits)

lemma keeps_published_run_thumbnail [simp]: "keeps_published (run_thumbnail ev i t)"
  by (simp add: keeps_published_def run_thumbnail_app split: proc_result.splits)

lemma keeps_published_upload_files [simp]: "keeps_published (upload_files ev ld b pre root files)"
  by (induction files) (auto intro!: keeps_published_and_then simp: Let_def split: sum.splits)

lemma keeps_published_upload_walk [simp]: "keeps_published (upload_walk ev ld b pre ts)"
  by (induction ts) (auto intro!: keeps_published_and_then)

lemma keeps_published_upload_directory [simp]: "keeps_published (upload_directory ev ld b pre)"
  unfolding keeps_published_def upload_directory_app
  by (simp add: keeps_published_app)

lemma keeps_published_generate_dash_files [simp]: "keeps_published (generate_dash_files ev a b c d)"
  unfolding generate_dash_files_def Let_def
  by (intro keeps_published_and_then) simp_all

lemma keeps_published_generate_thumbnail [simp]: "keeps_published (generate_thumbnail ev a b)"
  unfolding generate_thumbnail_def Let_def
  by (intro keeps_published_and_then) simp_all

lemma keeps_published_txt_step [simp]: "keeps_published (txt_step p)"
  unfolding keeps_published_def txt_step_app
  by (simp add: keeps_published_app ok_app)

lemma keeps_published_remove_files [simp]: "keeps_published (remove_files root files)"
  by (induction files) (auto intro!: keeps_published_and_then)

lemma keeps_published_remove_walk [simp]: "keeps_published (remove_walk ts)"
  by (induction ts) (auto intro!: keeps_published_and_then)

lemma keeps_published_clear_tmp_path [simp]: "keeps_published (clear_tmp_path p)"
proof -
  have a: "published (snd (and_then (remove_walk ts) (\<lambda>_. rmdir p) w)) = published w" for ts w
    by (rule keeps_published_app) (intro keeps_published_and_then, simp_all)
  show ?thesis
    unfolding keeps_published_def clear_tmp_path_app
    by (simp add: a keeps_published_app ok_app)
qed

lemma keeps_published_clear_tmp_paths [simp]: "keeps_published (clear_tmp_paths ps)"
  by (induction ps) (auto intro!: keeps_published_and_then)

lemma keeps_published_clear_tmp_files [simp]: "keeps_published (clear_tmp_files b)"
  by (simp add: clear_tmp_files_def)

section \<open>A run in which the transcoding process fails\<close>

lemma process_blob_transcode_nonzero:
  assumes "process_blob ev b w = (x, w')" and "dash_result ev = Exited rc" and "rc \<noteq> 0"
  shows "(x = Inl (CalledProcessError rc)
          \<and> calls w' = calls w @
               [CopyBlob (name b) DESTINATION_BUCKET_NAME
                  (base_file_name_of (name b) @ ''/original/'' @ name b),
                Makedirs (''/tmp/'' @ base_file_name_of (name b) @ ''_dash''),
                DownloadBlob SOURCE_BUCKET_NAME (name b) (''/tmp/'' @ name b),
                RunTranscode (''/tmp/'' @ name b)
                  ((''/tmp/'' @ base_file_name_of (name b) @ ''_dash'') @ ''/manifest.mpd'')]
          \<and> destination_bucket w' =
               (destination_bucket w)((base_file_name_of (name b) @ ''/original/'' @ name b)
                                        \<mapsto> content b)
          \<and> published w' = published w)
       \<or> ((\<exists>e. x = Inl e)
           \<and> (\<exists>cs. calls w' = calls w @ cs \<and> list_all (\<lambda>c. \<not> is_transcode c) cs))"
  using assms
  unfolding process_blob_app after_copy_app generate_dash_files_app
  by (auto simp: and_then_app copy_original_file_run makedirs_app download_blob_app
      run_transcode_app is_transcode_def
      split: if_splits prod.splits option.splits sum.splits download_result.splits)

section \<open>The file system tree\<close>

lemma fs_kind_Nil [simp]: "fs_kind [] n = Some (is_dir n)"
  by (simp add: fs_kind_def)

lemma fs_kind_File_Cons [simp]: "fs_kind (c # cs) (File x) = None"
  by (simp add: fs_kind_def)

lemma fs_kind_Dir_Cons:
  "fs_kind (c # cs) (Dir es) = (case map_of es c of None \<Rightarrow> None | Some m \<Rightarrow> fs_kind cs m)"
  by (simp add: fs_kind_def split: option.splits)

lemma fs_kind_dir_iff: "fs_kind q r = Some True \<longleftrightarrow> (\<exists>es. fs_lookup q r = Some (Dir es))"
proof (cases "fs_lookup q r")
  case None
  then show ?thesis by (simp add: fs_kind_def)
next
  case (Some n)
  then show ?thesis by (cases n) (simp_all add: fs_kind_def is_dir_def)
qed

lemma fs_kind_file_iff: "fs_kind q r = Some False \<longleftrightarrow> (\<exists>c. fs_lookup q r = Some (File c))"
proof (cases "fs_lookup q r")
  case None
  then show ?thesis by (simp add: fs_kind_def)
next
  case (Some n)
  then show ?thesis by (cases n) (simp_all add: fs_kind_def is_dir_def)
qed

lemma fs_kind_None_iff: "fs_kind q r = None \<longleftrightarrow> fs_lookup q r = None"
  by (simp add: fs_kind_def)

lemma fs_le_refl [simp]: "fs_le r r"
  by (simp add: fs_le_def)

lemma fs_le_trans: "fs_le a b \<Longrightarrow> fs_le b c \<Longrightarrow> fs_le a c"
  by (simp add: fs_le_def)

lemma fs_leD: "fs_le r r' \<Longrightarrow> fs_kind q r = Some k \<Longrightarrow> fs_kind q r' = Some k"
  by (simp add: fs_le_def)

lemma fs_put_kind:
  assumes "fs_lookup p root = None \<or> (\<exists>c. fs_lookup p root = Some (File c) \<and> is_file v)"
    and "fs_kind q root = Some k"
  shows "fs_kind q (fs_put p v root) = Some k"
  using assms
proof (induction p arbitrary: q root)
  case Nil
  then obtain c where root: "root = File c" and v: "is_file v" by auto
  with Nil.prems(2) have "q = []" "k = False" by (cases q; simp add: is_dir_def)+
  with v show ?case by (cases v) (simp_all add: is_dir_def is_file_def)
next
  case (Cons c cs)
  show ?case
  proof (cases root)
    case (File x)
    with Cons.prems show ?thesis by simp
  next
    case (Dir es)
    show ?thesis
    proof (cases q)
      case Nil
      with Dir Cons.prems(2) show ?thesis by (simp add: is_dir_def split: option.splits)
    next
      case q: (Cons d ds)
      show ?thesis
      proof (cases "d = c")
        case False
        with Dir q Cons.prems(2) show ?thesis
          by (simp add: fs_kind_Dir_Cons update_conv' split: option.splits)
      next
        case True
        from Cons.prems(2) Dir q True obtain m where m: "map_of es c = Some m"
          and km: "fs_kind ds m = Some k"
          by (auto simp: fs_kind_Dir_Cons split: option.splits)
        from Cons.prems(1) Dir m
        have a: "fs_lookup cs m = None \<or> (\<exists>c. fs_lookup cs m = Some (File c) \<and> is_file v)"
          by simp
        show ?thesis
        proof (cases "cs = []")
          case True
          with a obtain x where mf: "m = File x" and v: "is_file v" by auto
          with km have "ds = []" "k = False" by (cases ds; simp add: is_dir_def)+
          with v Dir q \<open>d = c\<close> \<open>cs = []\<close> show ?thesis
            by (cases v) (simp_all add: fs_kind_Dir_Cons update_conv' is_dir_def is_file_def)
        next
          case False
          from Cons.IH [OF a km] Dir q \<open>d = c\<close> m False show ?thesis
            by (simp add: fs_kind_Dir_Cons update_conv')
        qed
      qed
    qed
  qed
qed

lemma fs_le_put:
  "fs_lookup p root = None \<or> (\<exists>c. fs_lookup p root = Some (File c) \<and> is_file v)
     \<Longrightarrow> fs_le root (fs_put p v root)"
  unfolding fs_le_def using fs_put_kind by blast

lemma fs_lookup_append:
  "fs_lookup (p @ q) root = (case fs_lookup p root of None \<Rightarrow> None | Some m \<Rightarrow> fs_lookup q m)"
  by (induction p arbitrary: root) (auto split: node.splits option.splits)

lemma fs_lookup_put_same:
  "fs_kind p root = Some True \<Longrightarrow> fs_lookup (p @ [c]) (fs_put (p @ [c]) v root) = Some v"
proof (induction p arbitrary: root)
  case Nil
  then show ?case by (cases root) (simp_all add: is_dir_def update_conv')
next
  case (Cons d ds)
  then show ?case
    by (cases root) (auto simp: fs_kind_Dir_Cons update_conv' split: option.splits)
qed

lemma fs_kind_parent: "fs_kind (p @ [c]) root = Some k \<Longrightarrow> fs_kind p root = Some True"
  by (auto simp: fs_kind_def fs_lookup_append is_dir_def split: option.splits node.splits)

section \<open>Path resolution on a growing file system\<close>

lemma walk_path_mono:
  "fs_le r r' \<Longrightarrow> walk_path r cur cs = Inr q \<Longrightarrow> walk_path r' cur cs = Inr q"
proof (induction cs arbitrary: cur)
  case Nil
  then show ?case by simp
next
  case (Cons c cs)
  from Cons.prems(2) obtain es where d: "fs_lookup cur r = Some (Dir es)"
    by (auto split: option.splits node.splits)
  then have "fs_kind cur r = Some True" by (simp add: fs_kind_dir_iff)
  with Cons.prems(1) have "fs_kind cur r' = Some True" by (rule fs_leD)
  then obtain es' where d': "fs_lookup cur r' = Some (Dir es')" by (auto simp: fs_kind_dir_iff)
  from Cons.prems(2) Cons.IH [OF Cons.prems(1)] d d' show ?case
    by (auto split: if_splits)
qed

lemma resolve_mono: "fs_le r r' \<Longrightarrow> resolve r p = Inr q \<Longrightarrow> resolve r' p = Inr q"
  by (auto simp: resolve_def walk_path_mono split: if_splits)

lemma os_path_exists_iff:
  "os_path_exists r p \<longleftrightarrow> (\<exists>q k. resolve r p = Inr q \<and> fs_kind q r = Some k)"
  by (auto simp: os_path_exists_def fs_kind_def split: sum.splits option.splits)

lemma os_path_isdir_iff:
  "os_path_isdir r p \<longleftrightarrow> (\<exists>q. resolve r p = Inr q \<and> fs_kind q r = Some True)"
  by (auto simp: os_path_isdir_def fs_kind_def split: sum.splits option.splits)

lemma os_path_exists_mono: "fs_le r r' \<Longrightarrow> os_path_exists r p \<Longrightarrow> os_path_exists r' p"
  unfolding os_path_exists_iff by (blast intro: resolve_mono fs_leD)

lemma os_path_isdir_mono: "fs_le r r' \<Longrightarrow> os_path_isdir r p \<Longrightarrow> os_path_isdir r' p"
  unfolding os_path_isdir_iff by (blast intro: resolve_mono fs_leD)

lemma os_path_isdir_exists: "os_path_isdir r p \<Longrightarrow> os_path_exists r p"
  unfolding os_path_exists_iff os_path_isdir_iff by blast

section \<open>Writes keep what is on the disk\<close>

lemma fs_le_write_file: "write_file p c r = Inr r' \<Longrightarrow> fs_le r r'"
  by (auto simp: write_file_def is_file_def intro!: fs_le_put
      split: sum.splits option.splits node.splits)

lemma fs_le_makedirs_loop: "makedirs_loop b nm cur cs r = (e, r') \<Longrightarrow> fs_le r r'"
proof (induction cs arbitrary: cur r)
  case Nil
  then show ?case by simp
next
  case (Cons c cs)
  show ?case
  proof (cases "c = ''..''")
    case True
    with Cons show ?thesis by simp
  next
    case False
    show ?thesis
    proof (cases "fs_lookup (cur @ [c]) r")
      case None
      then have "fs_le r (fs_put (cur @ [c]) (Dir []) r)" by (intro fs_le_put) simp
      moreover from Cons.prems None False
      have "fs_le (fs_put (cur @ [c]) (Dir []) r) r'" by (auto intro: Cons.IH)
      ultimately show ?thesis by (rule fs_le_trans)
    next
      case (Some n)
      with Cons.prems False show ?thesis
        by (cases n) (auto intro: Cons.IH split: if_splits)
    qed
  qed
qed

lemma fs_le_os_makedirs: "os_makedirs p b r = (e, r') \<Longrightarrow> fs_le r r'"
  by (auto simp: os_makedirs_def fs_le_makedirs_loop split: if_splits)

lemma fs_le_write_outputs: "fs_le r (write_outputs d outs r)"
proof (induction outs arbitrary: r)
  case Nil
  then show ?case by simp
next
  case (Cons f outs)
  obtain n c where f: "f = (n, c)" by (cases f)
  have "fs_le r (case write_file (path_join d n) c r of Inl _ \<Rightarrow> r | Inr r' \<Rightarrow> r')"
    by (auto split: sum.splits intro: fs_le_write_file)
  from fs_le_trans [OF this Cons.IH] f show ?case by simp
qed

section \<open>The scratch paths\<close>

lemma split_sep_no_sep: "CHR ''/'' \<notin> set n \<Longrightarrow> split_sep n = [n]"
  by (induction n) auto

lemma split_sep_tmp: "CHR ''/'' \<notin> set n \<Longrightarrow> split_sep (''/tmp/'' @ n) = [[], ''tmp'', n]"
  by (simp add: split_sep_no_sep)

lemma resolve_tmp:
  assumes "fs_kind [] r = Some True" and "fs_kind [''tmp''] r = Some True" and "proper_name n"
  shows "resolve r (''/tmp/'' @ n) = Inr [''tmp'', n]"
proof -
  from assms(1) obtain es where a: "fs_lookup [] r = Some (Dir es)"
    unfolding fs_kind_dir_iff by blast
  from assms(2) obtain es' where b: "fs_lookup [''tmp''] r = Some (Dir es')"
    unfolding fs_kind_dir_iff by blast
  from assms(3) have n: "CHR ''/'' \<notin> set n" "n \<noteq> []" "n \<noteq> ''.''" "n \<noteq> ''..''"
    by (simp_all add: proper_name_def)
  have "walk_path r [] [[], ''tmp'', n] = Inr [''tmp'', n]"
    using a b n by (simp del: fs_lookup.simps)
  then show ?thesis unfolding resolve_def split_sep_tmp [OF n(1)] by simp
qed

lemma proper_name_suffix:
  assumes "CHR ''/'' \<notin> set b" and "CHR ''/'' \<notin> set s" and "2 < length s"
  shows "proper_name (b @ s)"
proof -
  have l: "length (b @ s) > 2" using assms(3) by simp
  have "b @ s \<noteq> []" using l by auto
  moreover have "b @ s \<noteq> ''.''" using l by (auto dest: arg_cong [where f = length])
  moreover have "b @ s \<noteq> ''..''" using l by (auto dest: arg_cong [where f = length])
  ultimately show ?thesis using assms by (simp add: proper_name_def)
qed

lemma proper_dash: "proper_name (base_file_name_of k @ ''_dash'')"
  by (rule proper_name_suffix) (simp_all add: base_file_name_of_no_sep)

lemma proper_txt: "proper_name (base_file_name_of k @ ''_txt'')"
  by (rule proper_name_suffix) (simp_all add: base_file_name_of_no_sep)

lemma proper_jpg: "proper_name (base_file_name_of k @ ''.jpg'')"
  by (rule proper_name_suffix) (simp_all add: base_file_name_of_no_sep)

lemma os_makedirs_tmp_isdir:
  assumes "os_makedirs (''/tmp/'' @ n) b r = (None, r')" and "proper_name n"
  shows "os_path_isdir r' (''/tmp/'' @ n)"
proof -
  from assms(2) have n: "CHR ''/'' \<notin> set n" "n \<noteq> []" "n \<noteq> ''.''" "n \<noteq> ''..''"
    by (simp_all add: proper_name_def)
  from assms(1) have rd: "is_dir r"
    and loop: "makedirs_loop b (''/tmp/'' @ n) [] [''tmp'', n] r = (None, r')"
    using n unfolding os_makedirs_def split_sep_tmp [OF n(1)]
    by (auto split: if_splits)
  have le: "fs_le r r'" using assms(1) by (rule fs_le_os_makedirs)
  from rd have k0: "fs_kind [] r = Some True" by simp
  define r1 where "r1 = (case fs_lookup [''tmp''] r of None \<Rightarrow> fs_put [''tmp''] (Dir []) r | Some _ \<Rightarrow> r)"
  have step1: "makedirs_loop b (''/tmp/'' @ n) [''tmp''] [n] r1 = (None, r')"
    and k1: "fs_kind [''tmp''] r1 = Some True"
  proof -
    show "makedirs_loop b (''/tmp/'' @ n) [''tmp''] [n] r1 = (None, r')"
      using loop unfolding r1_def
      by (auto simp del: fs_lookup.simps fs_put.simps split: option.splits node.splits if_splits)
    show "fs_kind [''tmp''] r1 = Some True"
    proof (cases "fs_lookup [''tmp''] r")
      case None
      have "fs_lookup ([] @ [''tmp'']) (fs_put ([] @ [''tmp'']) (Dir []) r) = Some (Dir [])"
        using k0 by (rule fs_lookup_put_same)
      with None show ?thesis by (simp add: r1_def fs_kind_dir_iff del: fs_lookup.simps fs_put.simps)
    next
      case (Some m)
      with loop show ?thesis
        by (cases m) (auto simp: r1_def fs_kind_dir_iff simp del: fs_lookup.simps fs_put.simps)
    qed
  qed
  have le1: "fs_le r1 r'" using step1 by (rule fs_le_makedirs_loop)
  have k2: "fs_kind [''tmp'', n] r' = Some True"
  proof (cases "fs_lookup [''tmp'', n] r1")
    case None
    have "fs_lookup ([''tmp''] @ [n]) (fs_put ([''tmp''] @ [n]) (Dir []) r1) = Some (Dir [])"
      using k1 by (rule fs_lookup_put_same)
    with None step1 n show ?thesis
      by (auto simp: fs_kind_dir_iff simp del: fs_lookup.simps fs_put.simps)
  next
    case (Some m)
    with step1 n show ?thesis
      by (cases m) (auto simp: fs_kind_dir_iff simp del: fs_lookup.simps fs_put.simps split: if_splits)
  qed
  have "fs_kind [] r' = Some True" using le k0 by (rule fs_leD)
  moreover have "fs_kind [''tmp''] r' = Some True" using le1 k1 by (rule fs_leD)
  ultimately have "resolve r' (''/tmp/'' @ n) = Inr [''tmp'', n]"
    using assms(2) by (rule resolve_tmp)
  with k2 show ?thesis unfolding os_path_isdir_iff by blast
qed

section \<open>Steps that keep what is on the disk\<close>

lemma fs_growsD: "fs_grows m \<Longrightarrow> m w = (Inr x, w') \<Longrightarrow> fs_le (fs w) (fs w')"
  unfolding fs_grows_def by blast

lemma fs_grows_same: "(\<And>w. fs (snd (m w)) = fs w) \<Longrightarrow> fs_grows m"
  unfolding fs_grows_def by (metis fs_le_refl snd_conv)

lemma fs_grows_ok [simp]: "fs_grows (ok x)"
  by (simp add: fs_grows_def ok_def)

lemma fs_grows_throw [simp]: "fs_grows (throw e)"
  by (simp add: fs_grows_def throw_def)

lemma fs_grows_and_then:
  assumes "fs_grows m" and "\<And>x. fs_grows (f x)"
  shows "fs_grows (and_then m f)"
  unfolding fs_grows_def
proof (intro allI impI)
  fix w x w'
  assume "and_then m f w = (Inr x, w')"
  then obtain y w1 where 1: "m w = (Inr y, w1)" and 2: "f y w1 = (Inr x, w')"
    unfolding and_then_Inr by blast
  from fs_growsD [OF assms(1) 1] fs_growsD [OF assms(2) 2]
  show "fs_le (fs w) (fs w')" by (rule fs_le_trans)
qed

lemma fs_grows_makedirs [simp]: "fs_grows (makedirs p b)"
  unfolding fs_grows_def
  by (auto simp: makedirs_app fs_le_os_makedirs split: prod.splits option.splits)

lemma fs_grows_copy_original_file [simp]: "fs_grows (copy_original_file ev b n)"
  by (rule fs_grows_same) (simp add: copy_original_file_run)

lemma fs_grows_download_blob [simp]: "fs_grows (download_blob ev b n d)"
  unfolding fs_grows_def
  by (auto simp: download_blob_app split: sum.splits option.splits
      intro: fs_le_trans [OF fs_le_write_file fs_le_write_file])

lemma fs_grows_upload_blob [simp]: "fs_grows (upload_blob ev b s d)"
  by (rule fs_grows_same) (simp add: upload_blob_app split: sum.splits)

lemma fs_grows_run_transcode [simp]: "fs_grows (run_transcode ev i d m)"
  unfolding fs_grows_def
  by (auto simp: run_transcode_app fs_le_write_outputs split: proc_result.splits if_splits)

lemma fs_grows_run_thumbnail [simp]: "fs_grows (run_thumbnail ev i t)"
  unfolding fs_grows_def
  by (auto simp: run_thumbnail_app fs_le_write_file
      split: proc_result.splits if_splits option.splits sum.splits)

lemma fs_same_upload_files: "fs (snd (upload_files ev ld b pre root files w)) = fs w"
proof (induction files arbitrary: w)
  case Nil
  then show ?case by (simp add: ok_app)
next
  case (Cons f files)
  then show ?case
    by (auto simp: and_then_app throw_app upload_blob_app Let_def split: sum.splits prod.splits)
qed

lemma fs_same_upload_walk: "fs (snd (upload_walk ev ld b pre ts w)) = fs w"
proof (induction ts arbitrary: w)
  case Nil
  then show ?case by (simp add: ok_app)
next
  case (Cons t ts)
  obtain root dirs files where t: "t = (root, dirs, files)" by (cases t)
  obtain r w1 where u: "upload_files ev ld b pre root files w = (r, w1)"
    by (cases "upload_files ev ld b pre root files w")
  with fs_same_upload_files [of ev ld b pre root files w] have "fs w1 = fs w" by simp
  with Cons.IH [of w1] t u show ?case
    by (cases r) (simp_all add: and_then_app)
qed

lemma fs_same_upload_directory: "fs (snd (upload_directory ev ld b pre w)) = fs w"
  by (simp add: upload_directory_app fs_same_upload_walk)

lemma fs_grows_upload_directory [simp]: "fs_grows (upload_directory ev ld b pre)"
  by (rule fs_grows_same) (rule fs_same_upload_directory)

lemma fs_grows_txt_step [simp]: "fs_grows (txt_step p)"
  unfolding fs_grows_def
  by (auto simp: txt_step_app ok_app dest: fs_growsD [OF fs_grows_makedirs] split: if_splits)

section \<open>The run up to the notification, and after it\<close>

lemma process_blob_split: "process_blob ev b = and_then (pre_publish ev b) (\<lambda>_. after_txt ev b)"
  by (rule ext)
     (simp add: process_blob_def after_copy_def after_dash_def after_thumbnail_def pre_publish_def
        and_then_def split: prod.splits sum.splits)

lemma logs_pre_publish:
  "logs (\<lambda>c. \<not> is_publish c \<and> \<not> is_cleanup c) (pre_publish ev b)"
  unfolding pre_publish_def
  by (intro logs_and_then logs_copy_original_file logs_generate_dash_files
      logs_generate_thumbnail logs_txt_step)
     (simp_all add: is_publish_def is_cleanup_def)

lemma keeps_published_pre_publish: "keeps_published (pre_publish ev b)"
  unfolding pre_publish_def by (intro keeps_published_and_then) simp_all

lemma read_file_exists: "read_file p r = Inr c \<Longrightarrow> os_path_exists r p"
  by (auto simp: read_file_def os_path_exists_def split: sum.splits option.splits node.splits)

lemma generate_dash_files_isdir:
  assumes "generate_dash_files ev n k op (''/tmp/'' @ d) w = (Inr x, w')" and "proper_name d"
  shows "os_path_isdir (fs w') (''/tmp/'' @ d)"
proof -
  let ?rest = "and_then (download_blob ev SOURCE_BUCKET_NAME k (''/tmp/'' @ k))
         (\<lambda>_. and_then (run_transcode ev (''/tmp/'' @ k) (''/tmp/'' @ d) ((''/tmp/'' @ d) @ ''/manifest.mpd''))
           (\<lambda>_. upload_directory ev (''/tmp/'' @ d) DESTINATION_BUCKET_NAME op))"
  from assms(1) obtain y wa where m: "makedirs (''/tmp/'' @ d) True w = (Inr y, wa)"
    and r: "?rest wa = (Inr x, w')"
    unfolding generate_dash_files_app and_then_Inr [of "makedirs (''/tmp/'' @ d) True"] by blast
  from m have "os_makedirs (''/tmp/'' @ d) True (fs w) = (None, fs wa)"
    by (auto simp: makedirs_app split: prod.splits option.splits)
  then have "os_path_isdir (fs wa) (''/tmp/'' @ d)" using assms(2) by (rule os_makedirs_tmp_isdir)
  moreover have "fs_grows ?rest" by (intro fs_grows_and_then) simp_all
  then have "fs_le (fs wa) (fs w')" using r by (rule fs_growsD)
  ultimately show ?thesis by (rule os_path_isdir_mono [rotated])
qed

lemma generate_thumbnail_exists:
  assumes "generate_thumbnail ev n k w = (Inr x, w')"
  shows "os_path_exists (fs w') (''/tmp/'' @ n @ ''.jpg'') \<and> fs_le (fs w) (fs w')"
proof -
  from assms obtain y wb where t: "run_thumbnail ev (''/tmp/'' @ k) (''/tmp/'' @ n @ ''.jpg'') w = (Inr y, wb)"
    and u: "upload_blob ev DESTINATION_BUCKET_NAME (''/tmp/'' @ n @ ''.jpg'')
              (n @ ''/thumbnail/'' @ n @ ''.jpg'') wb = (Inr x, w')"
    unfolding generate_thumbnail_app and_then_Inr by blast
  from u have "fs w' = fs wb" and "\<exists>c. read_file (''/tmp/'' @ n @ ''.jpg'') (fs wb) = Inr c"
    by (auto simp: upload_blob_app split: sum.splits if_splits)
  moreover from t have "fs_le (fs w) (fs wb)" by (rule fs_growsD [OF fs_grows_run_thumbnail])
  ultimately show ?thesis by (auto intro: read_file_exists)
qed

lemma txt_step_exists:
  assumes "txt_step (''/tmp/'' @ d) w = (Inr x, w')" and "proper_name d"
  shows "os_path_exists (fs w') (''/tmp/'' @ d) \<and> fs_le (fs w) (fs w')"
proof (cases "os_path_exists (fs w) (''/tmp/'' @ d)")
  case True
  with assms(1) show ?thesis by (simp add: txt_step_app ok_app)
next
  case False
  with assms(1) have m: "makedirs (''/tmp/'' @ d) False w = (Inr x, w')" by (simp add: txt_step_app)
  then have "os_makedirs (''/tmp/'' @ d) False (fs w) = (None, fs w')"
    by (auto simp: makedirs_app split: prod.splits option.splits)
  then have "os_path_isdir (fs w') (''/tmp/'' @ d)" using assms(2) by (rule os_makedirs_tmp_isdir)
  moreover from m have "fs_le (fs w) (fs w')" by (rule fs_growsD [OF fs_grows_makedirs])
  ultimately show ?thesis by (simp add: os_path_isdir_exists)
qed

lemma pre_publish_scratch_paths:
  assumes "pre_publish ev b w = (Inr x, w')"
  shows "os_path_isdir (fs w') (''/tmp/'' @ base_file_name_of (name b) @ ''_dash'')
       \<and> os_path_exists (fs w') (''/tmp/'' @ base_file_name_of (name b) @ ''_txt'')
       \<and> os_path_exists (fs w') (''/tmp/'' @ base_file_name_of (name b) @ ''.jpg'')"
proof -
  let ?n = "base_file_name_of (name b)"
  from assms obtain x1 w1 x2 w2 x3 w3
    where "copy_original_file ev b ?n w = (Inr x1, w1)"
      and d: "generate_dash_files ev ?n (name b) (?n @ ''/dash/'') (''/tmp/'' @ ?n @ ''_dash'') w1 = (Inr x2, w2)"
      and t: "generate_thumbnail ev ?n (name b) w2 = (Inr x3, w3)"
      and s: "txt_step (''/tmp/'' @ ?n @ ''_txt'') w3 = (Inr x, w')"
    unfolding pre_publish_def and_then_Inr by blast
  from generate_dash_files_isdir [OF d proper_dash]
  have 1: "os_path_isdir (fs w2) (''/tmp/'' @ ?n @ ''_dash'')" .
  from generate_thumbnail_exists [OF t]
  have 2: "os_path_exists (fs w3) (''/tmp/'' @ ?n @ ''.jpg'')" and l2: "fs_le (fs w2) (fs w3)" by simp_all
  from txt_step_exists [OF s proper_txt]
  have 3: "os_path_exists (fs w') (''/tmp/'' @ ?n @ ''_txt'')" and l3: "fs_le (fs w3) (fs w')" by simp_all
  from 1 l2 l3 have "os_path_isdir (fs w') (''/tmp/'' @ ?n @ ''_dash'')"
    by (blast intro: os_path_isdir_mono)
  moreover from 2 l3 have "os_path_exists (fs w') (''/tmp/'' @ ?n @ ''.jpg'')"
    by (blast intro: os_path_exists_mono)
  ultimately show ?thesis using 3 by simp
qed

lemma after_txt_run:
  "after_txt ev b w =
     (if publish_fails ev
      then (Inl PublishError, w\<lparr>calls := calls w @ [Publish topic_path (payload b)]\<rparr>)
      else after_notify b (w\<lparr>calls := calls w @ [Publish topic_path (payload b)],
                              published := published w @ [(topic_path, payload b)]\<rparr>))"
  by (simp add: after_txt_app and_then_app job_completed_notification_app topic_path_def payload_def)

lemma logs_after_notify: "logs is_cleanup (after_notify b)"
  unfolding after_notify_def
  by (intro logs_and_then logs_clear_tmp_files logs_ok) (simp_all add: is_cleanup_def)

lemma keeps_published_after_notify: "keeps_published (after_notify b)"
  unfolding after_notify_def by (intro keeps_published_and_then) simp_all

lemma after_notify_Inr: "after_notify b w = (Inr r, w') \<Longrightarrow> r = response_200 b"
  by (auto simp: after_notify_def and_then_Inr ok_def)

text \<open>A cleanup that raises has made at least one call.\<close>

lemma remove_calls: "calls (snd (remove p w)) = calls w @ [Remove p]"
  by (simp add: remove_app split: sum.splits)

lemma rmdir_calls: "calls (snd (rmdir p w)) = calls w @ [Rmdir p]"
  by (simp add: rmdir_app split: sum.splits)

lemma grows_length: "grows m \<Longrightarrow> m w = (r, w') \<Longrightarrow> length (calls w) \<le> length (calls w')"
  by (drule (1) growsD) (rule prefix_length_le)

lemma remove_files_fail:
  "remove_files root files w = (Inl e, w') \<Longrightarrow> length (calls w) < length (calls w')"
proof (induction files arbitrary: w)
  case Nil
  then show ?case by (simp add: ok_app)
next
  case (Cons f files)
  obtain r w1 where r: "remove (path_join root f) w = (r, w1)" by (cases "remove (path_join root f) w")
  with remove_calls [of "path_join root f" w] have l: "length (calls w1) = Suc (length (calls w))" by simp
  show ?case
  proof (cases r)
    case (Inl a)
    with Cons.prems r l show ?thesis by (simp add: and_then_app)
  next
    case (Inr a)
    with Cons.prems r have "remove_files root files w1 = (Inl e, w')" by (simp add: and_then_app)
    from Cons.IH [OF this] l show ?thesis by simp
  qed
qed

lemma remove_walk_fail:
  "remove_walk ts w = (Inl e, w') \<Longrightarrow> length (calls w) < length (calls w')"
proof (induction ts arbitrary: w)
  case Nil
  then show ?case by (simp add: ok_app)
next
  case (Cons t ts)
  obtain root dirs files where t: "t = (root, dirs, files)" by (cases t)
  obtain r w1 where r: "remove_files root files w = (r, w1)" by (cases "remove_files root files w")
  show ?case
  proof (cases r)
    case (Inl a)
    with Cons.prems r t remove_files_fail [of root files w a w1] show ?thesis
      by (simp add: and_then_app)
  next
    case (Inr a)
    with Cons.prems r t have "remove_walk ts w1 = (Inl e, w')" by (simp add: and_then_app)
    from Cons.IH [OF this] grows_length [OF grows_remove_files r] show ?thesis by simp
  qed
qed

lemma clear_tmp_path_fail:
  assumes "clear_tmp_path p w = (Inl e, w')"
  shows "length (calls w) < length (calls w')"
proof -
  have a: "length (calls w) < length (calls w')"
    if "and_then (remove_walk ts) (\<lambda>_. rmdir p) w = (Inl e, w')" for ts
  proof -
    obtain r w1 where r: "remove_walk ts w = (r, w1)" by (cases "remove_walk ts w")
    show ?thesis
    proof (cases r)
      case (Inl a)
      with that r remove_walk_fail [of ts w a w1] show ?thesis by (simp add: and_then_app)
    next
      case (Inr a)
      with that r have "rmdir p w1 = (Inl e, w')" by (simp add: and_then_app)
      with rmdir_calls [of p w1] have "length (calls w') = Suc (length (calls w1))" by simp
      with grows_length [OF grows_remove_walk r] show ?thesis by simp
    qed
  qed
  have b: "length (calls w) < length (calls w')" if "remove p w = (Inl e, w')"
    using that remove_calls [of p w] by simp
  from assms a b show ?thesis
    by (auto simp: clear_tmp_path_app ok_app split: if_splits)
qed

lemma clear_tmp_paths_fail:
  "clear_tmp_paths ps w = (Inl e, w') \<Longrightarrow> length (calls w) < length (calls w')"
proof (induction ps arbitrary: w)
  case Nil
  then show ?case by (simp add: ok_app)
next
  case (Cons p ps)
  obtain r w1 where r: "clear_tmp_path p w = (r, w1)" by (cases "clear_tmp_path p w")
  show ?case
  proof (cases r)
    case (Inl a)
    with Cons.prems r clear_tmp_path_fail [of p w a w1] show ?thesis by (simp add: and_then_app)
  next
    case (Inr a)
    with Cons.prems r have "clear_tmp_paths ps w1 = (Inl e, w')" by (simp add: and_then_app)
    from Cons.IH [OF this] grows_length [OF grows_clear_tmp_path r] show ?thesis by simp
  qed
qed

lemma after_notify_fail:
  assumes "after_notify b w = (Inl e, w')"
  shows "\<exists>c\<in>set (calls w'). is_cleanup c"
proof -
  from assms have c: "clear_tmp_paths (tmp_paths (base_file_name_of (name b))) w = (Inl e, w')"
    by (auto simp: after_notify_def and_then_Inl clear_tmp_files_def ok_def)
  from logsD [OF logs_after_notify assms]
  obtain cs where cs: "calls w' = calls w @ cs" "list_all is_cleanup cs" by blast
  with clear_tmp_paths_fail [OF c] have "cs \<noteq> []" by auto
  then obtain c where "c \<in> set cs" by (cases cs) auto
  with cs show ?thesis by (auto simp: list_all_iff)
qed

section \<open>The outcomes of processing the selected object\<close>

lemma filter_none: "list_all (\<lambda>c. \<not> P c) cs \<Longrightarrow> filter P cs = []"
  by (induction cs) auto

lemma is_cleanup_not_publish: "is_cleanup c \<Longrightarrow> \<not> is_publish c"
  by (cases c) (simp_all add: is_cleanup_def is_publish_def)

lemma process_blob_outcomes:
  assumes "process_blob ev b w0 = (x, w')"
  shows "(\<exists>e cs. x = Inl e \<and> calls w' = calls w0 @ cs
            \<and> list_all (\<lambda>c. \<not> is_publish c \<and> \<not> is_cleanup c) cs
            \<and> published w' = published w0)
       \<or> (publish_fails ev \<and> x = Inl PublishError
            \<and> (\<exists>cs. calls w' = calls w0 @ cs @ [Publish topic_path (payload b)]
                  \<and> list_all (\<lambda>c. \<not> is_publish c \<and> \<not> is_cleanup c) cs)
            \<and> published w' = published w0
            \<and> os_path_isdir (fs w') (''/tmp/'' @ base_file_name_of (name b) @ ''_dash'')
            \<and> os_path_exists (fs w') (''/tmp/'' @ base_file_name_of (name b) @ ''_txt'')
            \<and> os_path_exists (fs w') (''/tmp/'' @ base_file_name_of (name b) @ ''.jpg''))
       \<or> (\<not> publish_fails ev
            \<and> (\<exists>cs ds. calls w' = calls w0 @ cs @ [Publish topic_path (payload b)] @ ds
                  \<and> list_all (\<lambda>c. \<not> is_publish c \<and> \<not> is_cleanup c) cs
                  \<and> list_all is_cleanup ds
                  \<and> (x = Inr (response_200 b) \<or> ((\<exists>e. x = Inl e) \<and> ds \<noteq> [])))
            \<and> published w' = published w0 @ [(topic_path, payload b)])"
proof -
  obtain r1 w4 where pp: "pre_publish ev b w0 = (r1, w4)" by (cases "pre_publish ev b w0")
  from logsD [OF logs_pre_publish pp]
  obtain cs where cs: "calls w4 = calls w0 @ cs"
    "list_all (\<lambda>c. \<not> is_publish c \<and> \<not> is_cleanup c) cs" by blast
  from keeps_publishedD [OF keeps_published_pre_publish pp]
  have pub4: "published w4 = published w0" .
  show ?thesis
  proof (cases r1)
    case (Inl e)
    with assms pp have "x = Inl e" "w' = w4"
      by (simp_all add: process_blob_split and_then_app)
    with cs pub4 show ?thesis by blast
  next
    case (Inr u)
    with assms pp have at: "after_txt ev b w4 = (x, w')"
      by (simp add: process_blob_split and_then_app)
    show ?thesis
    proof (cases "publish_fails ev")
      case True
      with at have x: "x = Inl PublishError"
        and w': "w' = w4\<lparr>calls := calls w4 @ [Publish topic_path (payload b)]\<rparr>"
        by (simp_all add: after_txt_run)
      from pp Inr have "pre_publish ev b w0 = (Inr u, w4)" by simp
      from pre_publish_scratch_paths [OF this] w'
      have "os_path_isdir (fs w') (''/tmp/'' @ base_file_name_of (name b) @ ''_dash'')
       \<and> os_path_exists (fs w') (''/tmp/'' @ base_file_name_of (name b) @ ''_txt'')
       \<and> os_path_exists (fs w') (''/tmp/'' @ base_file_name_of (name b) @ ''.jpg'')" by simp
      moreover from w' cs have "calls w' = calls w0 @ cs @ [Publish topic_path (payload b)]" by simp
      moreover from w' pub4 have "published w' = published w0" by simp
      ultimately show ?thesis using True x cs(2) by blast
    next
      case False
      define w5 where "w5 = w4\<lparr>calls := calls w4 @ [Publish topic_path (payload b)],
                              published := published w4 @ [(topic_path, payload b)]\<rparr>"
      from at False have an: "after_notify b w5 = (x, w')" by (simp add: after_txt_run w5_def)
      from logsD [OF logs_after_notify an]
      obtain ds where ds: "calls w' = calls w5 @ ds" "list_all is_cleanup ds" by blast
      from keeps_publishedD [OF keeps_published_after_notify an] pub4
      have pub: "published w' = published w0 @ [(topic_path, payload b)]" by (simp add: w5_def)
      from ds cs have c: "calls w' = calls w0 @ cs @ [Publish topic_path (payload b)] @ ds"
        by (simp add: w5_def)
      have "x = Inr (response_200 b) \<or> ((\<exists>e. x = Inl e) \<and> ds \<noteq> [])"
      proof (cases x)
        case (Inr r)
        with an after_notify_Inr show ?thesis by blast
      next
        case (Inl e)
        with an have "after_notify b w5 = (Inl e, w')" by simp
        from after_notify_fail [OF this] obtain c where c: "c \<in> set (calls w')" "is_cleanup c" by blast
        have "ds \<noteq> []"
        proof
          assume "ds = []"
          with c ds have "c \<in> set (calls w5)" by simp
          then have "c \<in> set (calls w0) \<or> c \<in> set cs \<or> c = Publish topic_path (payload b)"
            using cs(1) by (auto simp: w5_def)
          moreover have "length (calls w5) < length (calls w')"
          proof -
            from \<open>after_notify b w5 = (Inl e, w')\<close>
            have "clear_tmp_paths (tmp_paths (base_file_name_of (name b))) w5 = (Inl e, w')"
              by (auto simp: after_notify_def and_then_Inl clear_tmp_files_def ok_def)
            then show ?thesis by (rule clear_tmp_paths_fail)
          qed
          ultimately show False using ds \<open>ds = []\<close> by simp
        qed
        with Inl show ?thesis by blast
      qed
      with False c cs(2) ds(2) pub show ?thesis by blast
    qed
  qed
qed

section \<open>Example runs\<close>

lemma run_transcode_fails:
  "transcoder_handler env_transcode_fails req_ok movie_world =
     (response_500 (CalledProcessError 1),
      \<lparr>source_bucket = [movie],
       destination_bucket = [''movie/original/movie.mp4'' \<mapsto> ''video''],
       fs = Dir [(''tmp'', Dir [(''movie_dash'', Dir []), (''movie.mp4'', File ''video'')])],
       published = [],
       calls = [ListBlobs SOURCE_BUCKET_NAME,
                CopyBlob ''movie.mp4'' DESTINATION_BUCKET_NAME ''movie/original/movie.mp4'',
                Makedirs ''/tmp/movie_dash'',
                DownloadBlob SOURCE_BUCKET_NAME ''movie.mp4'' ''/tmp/movie.mp4'',
                RunTranscode ''/tmp/movie.mp4'' ''/tmp/movie_dash/manifest.mpd'']\<rparr>)"
  by (simp add: run_app fs_defs env_ok_def env_transcode_fails_def req_ok_def movie_def
      movie_world_def world_of_def Let_def response_500_def)

lemma run_publish_fails:
  "transcoder_handler env_publish_fails req_ok movie_world =
     (response_500 PublishError,
      \<lparr>source_bucket = [movie],
       destination_bucket = [''movie/original/movie.mp4'' \<mapsto> ''video'',
                             ''movie/dash/manifest.mpd'' \<mapsto> ''mpd'',
                             ''movie/dash/init-0.mp4'' \<mapsto> ''seg'',
                             ''movie/thumbnail/movie.jpg'' \<mapsto> ''jpg''],
       fs = Dir [(''tmp'', Dir [(''movie_dash'', Dir [(''manifest.mpd'', File ''mpd''),
                                                     (''init-0.mp4'', File ''seg'')]),
                               (''movie.mp4'', File ''video''),
                               (''movie.jpg'', File ''jpg''),
                               (''movie_txt'', Dir [])])],
       published = [],
       calls = [ListBlobs SOURCE_BUCKET_NAME,
                CopyBlob ''movie.mp4'' DESTINATION_BUCKET_NAME ''movie/original/movie.mp4'',
                Makedirs ''/tmp/movie_dash'',
                DownloadBlob SOURCE_BUCKET_NAME ''movie.mp4'' ''/tmp/movie.mp4'',
                RunTranscode ''/tmp/movie.mp4'' ''/tmp/movie_dash/manifest.mpd'',
                UploadBlob DESTINATION_BUCKET_NAME ''/tmp/movie_dash/manifest.mpd''
                  ''movie/dash/manifest.mpd'',
                UploadBlob DESTINATION_BUCKET_NAME ''/tmp/movie_dash/init-0.mp4''
                  ''movie/dash/init-0.mp4'',
                RunThumbnail ''/tmp/movie.mp4'' ''/tmp/movie.jpg'',
                UploadBlob DESTINATION_BUCKET_NAME ''/tmp/movie.jpg''
                  ''movie/thumbnail/movie.jpg'',
                Makedirs ''/tmp/movie_txt'',
                Publish topic_path (payload movie)]\<rparr>)"
  by (simp add: run_app fs_defs env_ok_def env_publish_fails_def req_ok_def movie_def
      movie_world_def world_of_def Let_def response_500_def topic_path_def payload_def)

lemma run_ok:
  "transcoder_handler env_ok req_ok movie_world =
     (response_200 movie,
      \<lparr>source_bucket = [movie],
       destination_bucket = [''movie/original/movie.mp4'' \<mapsto> ''video'',
                             ''movie/dash/manifest.mpd'' \<mapsto> ''mpd'',
                             ''movie/dash/init-0.mp4'' \<mapsto> ''seg'',
                             ''movie/thumbnail/movie.jpg'' \<mapsto> ''jpg''],
       fs = Dir [(''tmp'', Dir [(''movie.mp4'', File ''video'')])],
       published = [(topic_path, payload movie)],
       calls = [ListBlobs SOURCE_BUCKET_NAME,
                CopyBlob ''movie.mp4'' DESTINATION_BUCKET_NAME ''movie/original/movie.mp4'',
                Makedirs ''/tmp/movie_dash'',
                DownloadBlob SOURCE_BUCKET_NAME ''movie.mp4'' ''/tmp/movie.mp4'',
                RunTranscode ''/tmp/movie.mp4'' ''/tmp/movie_dash/manifest.mpd'',
                UploadBlob DESTINATION_BUCKET_NAME ''/tmp/movie_dash/manifest.mpd''
                  ''movie/dash/manifest.mpd'',
                UploadBlob DESTINATION_BUCKET_NAME ''/tmp/movie_dash/init-0.mp4''
                  ''movie/dash/init-0.mp4'',
                RunThumbnail ''/tmp/movie.mp4'' ''/tmp/movie.jpg'',
                UploadBlob DESTINATION_BUCKET_NAME ''/tmp/movie.jpg''
                  ''movie/thumbnail/movie.jpg'',
                Makedirs ''/tmp/movie_txt'',
                Publish topic_path (payload movie),
                Remove ''/tmp/movie_dash/manifest.mpd'',
                Remove ''/tmp/movie_dash/init-0.mp4'',
                Rmdir ''/tmp/movie_dash'',
                Rmdir ''/tmp/movie_txt'',
                Remove ''/tmp/movie.jpg'']\<rparr>)"
  by (simp add: run_app fs_defs env_ok_def req_ok_def movie_def
      movie_world_def world_of_def Let_def response_200_def topic_path_def payload_def)

lemma run_stale:
  "transcoder_handler env_ok req_ok stale_world =
     (response_500 (OSError ENOTEMPTY ''/tmp/movie_txt''),
      \<lparr>source_bucket = [movie],
       destination_bucket = [''movie/original/movie.mp4'' \<mapsto> ''video'',
                             ''movie/dash/manifest.mpd'' \<mapsto> ''mpd'',
                             ''movie/dash/init-0.mp4'' \<mapsto> ''seg'',
                             ''movie/thumbnail/movie.jpg'' \<mapsto> ''jpg''],
       fs = Dir [(''tmp'', Dir [(''movie_txt'', Dir [(''old'', Dir [])]),
                               (''movie.mp4'', File ''video''),
                               (''movie.jpg'', File ''jpg'')])],
       published = [(topic_path, payload movie)],
       calls = [ListBlobs SOURCE_BUCKET_NAME,
                CopyBlob ''movie.mp4'' DESTINATION_BUCKET_NAME ''movie/original/movie.mp4'',
                Makedirs ''/tmp/movie_dash'',
                DownloadBlob SOURCE_BUCKET_NAME ''movie.mp4'' ''/tmp/movie.mp4'',
                RunTranscode ''/tmp/movie.mp4'' ''/tmp/movie_dash/manifest.mpd'',
                UploadBlob DESTINATION_BUCKET_NAME ''/tmp/movie_dash/manifest.mpd''
                  ''movie/dash/manifest.mpd'',
                UploadBlob DESTINATION_BUCKET_NAME ''/tmp/movie_dash/init-0.mp4''
                  ''movie/dash/init-0.mp4'',
                RunThumbnail ''/tmp/movie.mp4'' ''/tmp/movie.jpg'',
                UploadBlob DESTINATION_BUCKET_NAME ''/tmp/movie.jpg''
                  ''movie/thumbnail/movie.jpg'',
                Publish topic_path (payload movie),
                Remove ''/tmp/movie_dash/manifest.mpd'',
                Remove ''/tmp/movie_dash/init-0.mp4'',
                Rmdir ''/tmp/movie_dash'',
                Rmdir ''/tmp/movie_txt'']\<rparr>)"
  by (simp add: run_app fs_defs env_ok_def req_ok_def movie_def stale_world_def
      world_of_def Let_def response_500_def topic_path_def payload_def)

lemma payload_movie:
  "payload movie = [CHR ''{'', CHR 0x22] @ ''message'' @ [CHR 0x22] @ '': '' @ [CHR 0x22]
        @ ''Processing completed for movie'' @ [CHR 0x22, CHR ''}'']"
  by (simp add: payload_def movie_def fs_defs)

lemma plain_json:
  "list_all (\<lambda>c. (32::nat) \<le> of_char c \<and> of_char c \<le> (126::nat) \<and> c \<noteq> CHR 0x22 \<and> c \<noteq> CHR 0x5C) s
     \<Longrightarrow> concat (map json_escape_char s) = s"
  by (induction s) (auto simp: json_escape_char_def)

section \<open>Call logs around the notification\<close>

lemma is_call_simps [simp]:
  "is_publish (ListBlobs s) = False" "is_cleanup (ListBlobs s) = False"
  "is_publish (Publish t m) = True" "is_cleanup (Publish t m) = False"
  by (simp_all add: is_publish_def is_cleanup_def)

lemma takeWhile_all:
  "list_all (\<lambda>c. \<not> P c \<and> \<not> Q c) cs
     \<Longrightarrow> takeWhile (\<lambda>c. \<not> P c) (cs @ rest) = cs @ takeWhile (\<lambda>c. \<not> P c) rest"
  by (induction cs) auto

lemma takeWhile_all_Nil:
  "list_all (\<lambda>c. \<not> P c \<and> \<not> Q c) cs \<Longrightarrow> takeWhile (\<lambda>c. \<not> P c) cs = cs"
  using takeWhile_all [of P Q cs "[]"] by simp

lemma list_all_conj1: "list_all (\<lambda>c. \<not> P c \<and> \<not> Q c) cs \<Longrightarrow> list_all (\<lambda>c. \<not> P c) cs"
  by (simp add: list_all_iff)

lemma list_all_conj2: "list_all (\<lambda>c. \<not> P c \<and> \<not> Q c) cs \<Longrightarrow> list_all (\<lambda>c. \<not> Q c) cs"
  by (simp add: list_all_iff)

lemma list_all_none: "list_all (\<lambda>c. \<not> P c) cs \<Longrightarrow> c \<in> set cs \<Longrightarrow> \<not> P c"
  by (simp add: list_all_iff)

section \<open>The notification payload\<close>

lemma json_dumps_message_plain:
  assumes "list_all (\<lambda>c. (32::nat) \<le> of_char c \<and> of_char c \<le> (126::nat)
                        \<and> c \<noteq> CHR 0x22 \<and> c \<noteq> CHR 0x5C) s"
  shows "json_dumps_message (''Processing completed for '' @ s)
           = [CHR ''{'', CHR 0x22] @ ''message'' @ [CHR 0x22] @ '': '' @ [CHR 0x22]
               @ ''Processing completed for '' @ s @ [CHR 0x22, CHR ''}'']"
proof -
  have "concat (map json_escape_char (''Processing completed for '' @ s))
          = ''Processing completed for '' @ s"
    by (rule plain_json) (use assms in simp)
  moreover have "concat (map json_escape_char ''message'') = ''message''"
    by (rule plain_json) simp
  ultimately show ?thesis
    unfolding json_dumps_message_def json_dumps_string_def by simp
qed

lemma cleanup_filter_publish: "list_all is_cleanup ds \<Longrightarrow> filter is_publish ds = []"
  by (rule filter_none) (auto simp: list_all_iff dest: is_cleanup_not_publish)

text \<open>
  Runs that end with status 200 have made exactly one publish call and published exactly
  one notification, to the topic \<open>projects/{PROJECT_ID}/topics/{PUBSUB_TOPIC_NAME}\<close>,
  with the payload \<open>json.dumps({"message": "Processing completed for {jobBaseName}"})\<close>;
  for a base name of printable ASCII characters without quote and backslash the payload is
  the text \<open>{"message": "Processing completed for {jobBaseName}"}\<close> itself. Runs that
  end otherwise without having called a file or directory removal have published nothing.
\<close>

lemma notification_published_once:
  assumes "calls w = []"
    and "transcoder_handler ev req w = (r, w')"
  shows "(statusCode (fst r) = 200 \<longrightarrow>
           (\<exists>b. py_max time_created (source_bucket w) = Some b
              \<and> filter is_publish (calls w')
                   = [Publish (''projects/'' @ PROJECT_ID @ ''/topics/'' @ PUBSUB_TOPIC_NAME)
                        (json_dumps_message
                           (''Processing completed for '' @ base_file_name_of (name b)))]
              \<and> published w' = published w @
                   [(''projects/'' @ PROJECT_ID @ ''/topics/'' @ PUBSUB_TOPIC_NAME,
                     json_dumps_message
                       (''Processing completed for '' @ base_file_name_of (name b)))]))
       \<and> (statusCode (fst r) \<noteq> 200 \<and> list_all (\<lambda>c. \<not> is_cleanup c) (calls w') \<longrightarrow>
            published w' = published w)
       \<and> (\<forall>s. list_all (\<lambda>c. (32::nat) \<le> of_char c \<and> of_char c \<le> (126::nat)
                              \<and> c \<noteq> CHR 0x22 \<and> c \<noteq> CHR 0x5C) s \<longrightarrow>
            json_dumps_message (''Processing completed for '' @ s)
              = [CHR ''{'', CHR 0x22] @ ''message'' @ [CHR 0x22] @ '': '' @ [CHR 0x22]
                  @ ''Processing completed for '' @ s @ [CHR 0x22, CHR ''}''])"
proof -
  let ?w0 = "w\<lparr>calls := calls w @ [ListBlobs SOURCE_BUCKET_NAME]\<rparr>"
  have third: "\<forall>s. list_all (\<lambda>c. (32::nat) \<le> of_char c \<and> of_char c \<le> (126::nat)
                              \<and> c \<noteq> CHR 0x22 \<and> c \<noteq> CHR 0x5C) s \<longrightarrow>
            json_dumps_message (''Processing completed for '' @ s)
              = [CHR ''{'', CHR 0x22] @ ''message'' @ [CHR 0x22] @ '': '' @ [CHR 0x22]
                  @ ''Processing completed for '' @ s @ [CHR 0x22, CHR ''}'']"
    using json_dumps_message_plain by blast
  from transcoder_handler_cases [OF assms(2)]
  consider "statusCode (fst r) \<noteq> 200" "published w' = published w"
      "calls w' = [] \<or> calls w' = [ListBlobs SOURCE_BUCKET_NAME]"
    | b x where "py_max time_created (source_bucket w) = Some b"
        "process_blob ev b ?w0 = (x, w')"
        "r = (case x of Inr r' \<Rightarrow> r' | Inl e \<Rightarrow> response_500 e)"
    using assms(1) by (auto simp: response_400_def response_404_def response_500_def)
  then have "(statusCode (fst r) = 200 \<longrightarrow>
           (\<exists>b. py_max time_created (source_bucket w) = Some b
              \<and> filter is_publish (calls w')
                   = [Publish (''projects/'' @ PROJECT_ID @ ''/topics/'' @ PUBSUB_TOPIC_NAME)
                        (json_dumps_message
                           (''Processing completed for '' @ base_file_name_of (name b)))]
              \<and> published w' = published w @
                   [(''projects/'' @ PROJECT_ID @ ''/topics/'' @ PUBSUB_TOPIC_NAME,
                     json_dumps_message
                       (''Processing completed for '' @ base_file_name_of (name b)))]))
       \<and> (statusCode (fst r) \<noteq> 200 \<and> list_all (\<lambda>c. \<not> is_cleanup c) (calls w') \<longrightarrow>
            published w' = published w)"
  proof cases
    case 1
    then show ?thesis by auto
  next
    case (2 b x)
    from process_blob_outcomes [OF 2(2)] assms(1)
    consider cs e where "x = Inl e" "calls w' = ListBlobs SOURCE_BUCKET_NAME # cs"
        "list_all (\<lambda>c. \<not> is_publish c \<and> \<not> is_cleanup c) cs" "published w' = published w"
      | "publish_fails ev" "x = Inl PublishError" "published w' = published w"
      | cs ds where "x = Inr (response_200 b)"
        "calls w' = ListBlobs SOURCE_BUCKET_NAME # cs @ [Publish topic_path (payload b)] @ ds"
        "list_all (\<lambda>c. \<not> is_publish c \<and> \<not> is_cleanup c) cs" "list_all is_cleanup ds"
        "published w' = published w @ [(topic_path, payload b)]"
      | cs ds e where "x = Inl e" "ds \<noteq> []"
        "calls w' = ListBlobs SOURCE_BUCKET_NAME # cs @ [Publish topic_path (payload b)] @ ds"
        "list_all is_cleanup ds"
      by auto
    then show ?thesis
    proof cases
      case 1
      from 1(2,3) have "filter is_publish (calls w') = []"
        by (simp add: filter_none [OF list_all_conj1])
      with 1(1,4) 2(3) show ?thesis by (simp add: response_500_def)
    next
      case 2
      with \<open>r = (case x of Inr r' \<Rightarrow> r' | Inl e \<Rightarrow> response_500 e)\<close>
      show ?thesis by (simp add: response_500_def)
    next
      case 3
      from 3(2,3,4) have "filter is_publish (calls w') = [Publish topic_path (payload b)]"
        by (simp add: filter_none [OF list_all_conj1] cleanup_filter_publish)
      with 3(1,5) 2(1,3) show ?thesis
        by (simp add: response_200_def topic_path_def payload_def)
    next
      case 4
      from 4(2,4) obtain d where "d \<in> set ds" "is_cleanup d"
        by (cases ds) auto
      with 4(3) have "\<not> list_all (\<lambda>c. \<not> is_cleanup c) (calls w')"
        by (auto simp: list_all_iff)
      with 4(1) 2(3) show ?thesis by (simp add: response_500_def)
    qed
  qed
  with third show ?thesis by blast
qed

section \<open>Splitting and joining path strings\<close>

lemma split_sep_ne [simp]: "split_sep s \<noteq> []"
  by (induction s) (auto split: list.splits)

lemma split_sep_append_sep: "split_sep (a @ CHR ''/'' # b) = split_sep a @ split_sep b"
proof (induction a)
  case Nil
  show ?case by (cases "split_sep b") simp_all
next
  case (Cons x a)
  then show ?case by (cases "split_sep a") simp_all
qed

lemma split_sep_cat:
  "\<forall>c \<in> set ds. CHR ''/'' \<notin> set c \<Longrightarrow> split_sep (cat_path d ds) = split_sep d @ ds"
proof (induction ds arbitrary: d)
  case Nil
  show ?case by (simp add: cat_path_def)
next
  case (Cons c ds)
  have "cat_path d (c # ds) = cat_path (d @ CHR ''/'' # c) ds" by (simp add: cat_path_def)
  with Cons show ?case by (simp add: split_sep_append_sep split_sep_no_sep)
qed

lemma cat_path_Nil [simp]: "cat_path d [] = d"
  by (simp add: cat_path_def)

lemma cat_path_snoc: "cat_path d (ds @ [c]) = cat_path d ds @ CHR ''/'' # c"
  by (simp add: cat_path_def)

lemma join_sep_cat: "join_sep (c # cs) = cat_path c cs"
  by (induction cs arbitrary: c) (simp_all add: cat_path_def)

lemma cat_path_join: "rel \<noteq> [] \<Longrightarrow> cat_path d rel = d @ ''/'' @ join_sep rel"
  by (cases rel) (simp_all add: join_sep_cat, simp add: cat_path_def)

lemma last_cat_path:
  assumes "\<forall>c \<in> set ds. proper_name c" and "d \<noteq> []" and "last d \<noteq> CHR ''/''"
  shows "cat_path d ds \<noteq> [] \<and> last (cat_path d ds) \<noteq> CHR ''/''"
  using assms
proof (induction ds rule: rev_induct)
  case Nil
  then show ?case by simp
next
  case (snoc c ds)
  then have "c \<noteq> []" "CHR ''/'' \<notin> set c" by (auto simp: proper_name_def)
  then have "last c \<noteq> CHR ''/''" by (metis last_in_set)
  with \<open>c \<noteq> []\<close> show ?case by (simp add: cat_path_snoc)
qed

lemma path_join_cat:
  assumes "\<forall>c \<in> set ds. proper_name c" and "proper_name f" and "d \<noteq> []" and "last d \<noteq> CHR ''/''"
  shows "path_join (cat_path d ds) f = cat_path d (ds @ [f])"
proof -
  from assms(2) have "f \<noteq> []" "CHR ''/'' \<notin> set f" by (auto simp: proper_name_def)
  then have "f \<noteq> []" "hd f \<noteq> CHR ''/''" by (metis hd_in_set)+
  with last_cat_path [OF assms(1,3,4)] show ?thesis
    by (simp add: path_join_def cat_path_snoc)
qed

section \<open>Relative paths below a scratch directory\<close>

lemma normpath_loop_proper:
  "\<forall>c \<in> set cs. proper_name c \<Longrightarrow> normpath_loop True acc cs = acc @ cs"
  by (induction cs arbitrary: acc) (auto simp: proper_name_def)

lemma normpath_tmp:
  assumes "proper_name n" and "\<forall>c \<in> set rel. proper_name c"
  shows "normpath (cat_path (''/tmp/'' @ n) rel) = cat_path (''/tmp/'' @ n) rel"
proof -
  define p where "p = cat_path (''/tmp/'' @ n) rel"
  from assms have ns: "\<forall>c \<in> set rel. CHR ''/'' \<notin> set c" "CHR ''/'' \<notin> set n"
    by (auto simp: proper_name_def)
  have sp: "split_sep p = [] # ''tmp'' # n # rel"
    unfolding p_def split_sep_cat [OF ns(1)] split_sep_tmp [OF ns(2)] by simp
  have pr: "\<forall>c \<in> set (''tmp'' # n # rel). proper_name c"
    using assms by (simp add: proper_name_def)
  have lp: "normpath_loop True [] ([] # ''tmp'' # n # rel) = ''tmp'' # n # rel"
    using normpath_loop_proper [OF pr, of "[]"] by simp
  have j: "CHR ''/'' # join_sep (''tmp'' # n # rel) = p"
    by (simp add: join_sep_cat cat_path_def p_def)
  have h: "p \<noteq> []" "take 1 p = ''/''" "take (Suc 0) p = ''/''" "take 2 p \<noteq> ''//''"
    by (simp_all add: cat_path_def p_def)
  have "normpath p = p"
    unfolding normpath_def Let_def
    by (simp add: sp lp h j del: normpath_loop.simps join_sep.simps)
  then show ?thesis by (simp add: p_def)
qed

lemma commonprefix_append [simp]: "commonprefix xs (xs @ ys) = xs"
  by (induction xs) simp_all

lemma relpath_tmp:
  assumes "proper_name n" and "\<forall>c \<in> set rel. proper_name c" and "rel \<noteq> []"
  shows "relpath (cat_path (''/tmp/'' @ n) rel) (''/tmp/'' @ n) = Inr (join_sep rel)"
proof -
  from assms have ns: "\<forall>c \<in> set rel. CHR ''/'' \<notin> set c" "CHR ''/'' \<notin> set n"
    and ne: "\<forall>c \<in> set rel. c \<noteq> []" "n \<noteq> []"
    by (auto simp: proper_name_def)
  have a1: "abspath (cat_path (''/tmp/'' @ n) rel) = cat_path (''/tmp/'' @ n) rel"
    using normpath_tmp [OF assms(1,2)] by (simp add: abspath_def cat_path_def)
  have a2: "abspath (''/tmp/'' @ n) = ''/tmp/'' @ n"
    using normpath_tmp [OF assms(1), of "[]"] by (simp add: abspath_def)
  have s1: "filter (\<lambda>x. x \<noteq> []) (split_sep (cat_path (''/tmp/'' @ n) rel)) = [''tmp'', n] @ rel"
    unfolding split_sep_cat [OF ns(1)] split_sep_tmp [OF ns(2)]
    using ne by (simp add: filter_id_conv)
  have s2: "filter (\<lambda>x. x \<noteq> []) (split_sep (''/tmp/'' @ n)) = [''tmp'', n]"
    unfolding split_sep_tmp [OF ns(2)] using ne by simp
  have p: "cat_path (''/tmp/'' @ n) rel \<noteq> []" by (simp add: cat_path_def)
  show ?thesis
    unfolding relpath_def a1 a2 s1 s2 Let_def using p assms(3) by simp
qed


section \<open>The uploads of a directory walk\<close>

lemma and_then_assoc:
  "and_then (and_then m f) g = and_then m (\<lambda>x. and_then (f x) g)"
  by (auto simp: and_then_def fun_eq_iff split: prod.splits sum.splits)

lemma and_then_ok [simp]: "and_then (ok x) f = f x"
  by (simp add: and_then_def ok_def fun_eq_iff)

lemma and_then_ok_unit [simp]: "and_then m (\<lambda>_. ok ()) = (m :: unit eff)"
  by (auto simp: and_then_def ok_def fun_eq_iff split: prod.splits sum.splits)

lemma upload_list_append:
  "upload_list ev b (xs @ ys) = and_then (upload_list ev b xs) (\<lambda>_. upload_list ev b ys)"
  by (induction xs) (auto simp: and_then_assoc)

lemma upload_walk_append:
  "upload_walk ev d b p (xs @ ys) = and_then (upload_walk ev d b p xs) (\<lambda>_. upload_walk ev d b p ys)"
  by (induction xs) (auto simp: and_then_assoc)

lemma upload_walk_concat:
  assumes "\<And>e. e \<in> set es \<Longrightarrow> upload_walk ev d b p (h e) = upload_list ev b (h' e)"
  shows "upload_walk ev d b p (concat (map h es)) = upload_list ev b (concat (map h' es))"
  using assms by (induction es) (simp_all add: upload_walk_append upload_list_append)

lemma last_tmp: "proper_name n \<Longrightarrow> last (''/tmp/'' @ n) \<noteq> CHR ''/''"
  by (metis append_is_Nil_conv last_appendR last_in_set proper_name_def)

lemma tmp_ne: "''/tmp/'' @ n \<noteq> []"
  by simp

lemma upload_files_rel:
  assumes "proper_name n" and "\<forall>c \<in> set ds. proper_name c" and "\<forall>f \<in> set files. proper_name f"
  shows "upload_files ev (''/tmp/'' @ n) b p (cat_path (''/tmp/'' @ n) ds) files
       = upload_list ev b
           (map (\<lambda>f. (cat_path (''/tmp/'' @ n) (ds @ [f]), path_join p (join_sep (ds @ [f])))) files)"
  using assms(3)
proof (induction files)
  case Nil
  show ?case by simp
next
  case (Cons f files)
  then have f: "proper_name f" by simp
  have j: "path_join (cat_path (''/tmp/'' @ n) ds) f = cat_path (''/tmp/'' @ n) (ds @ [f])"
    using assms(2) f tmp_ne last_tmp [OF assms(1)] by (rule path_join_cat)
  have r: "relpath (cat_path (''/tmp/'' @ n) (ds @ [f])) (''/tmp/'' @ n) = Inr (join_sep (ds @ [f]))"
    using assms(1) by (rule relpath_tmp) (use assms(2) f in auto)
  have "upload_files ev (''/tmp/'' @ n) b p (cat_path (''/tmp/'' @ n) ds) (f # files)
      = and_then (upload_blob ev b (cat_path (''/tmp/'' @ n) (ds @ [f]))
                    (path_join p (join_sep (ds @ [f]))))
          (\<lambda>_. upload_files ev (''/tmp/'' @ n) b p (cat_path (''/tmp/'' @ n) ds) files)"
    unfolding upload_files.simps j Let_def r by simp
  with Cons show ?case by simp
qed

lemma wf_entries_file: "wf_entries es \<Longrightarrow> e \<in> set es \<Longrightarrow> proper_name (fst e)"
  by (subst (asm) wf_entries.simps) blast

lemma wf_entries_sub: "wf_entries es \<Longrightarrow> e \<in> set es \<Longrightarrow> snd e = Dir sub \<Longrightarrow> wf_entries sub"
  by (subst (asm) wf_entries.simps) (auto split: node.splits)

lemma upload_walk_rel:
  assumes "proper_name n"
  shows "\<forall>c \<in> set ds. proper_name c \<Longrightarrow> wf_entries es \<Longrightarrow> dirpath = cat_path (''/tmp/'' @ n) ds \<Longrightarrow>
         upload_walk ev (''/tmp/'' @ n) b p (walk_tree dirpath es)
       = upload_list ev b
           (map (\<lambda>rel. (cat_path (''/tmp/'' @ n) (ds @ rel), path_join p (join_sep (ds @ rel))))
              (rel_files es))"
proof (induction dirpath es arbitrary: ds rule: walk_tree.induct)
  case (1 dirpath es)
  let ?d = "''/tmp/'' @ n"
  let ?g = "\<lambda>rel. (cat_path ?d (ds @ rel), path_join p (join_sep (ds @ rel)))"
  let ?files = "map fst (filter (\<lambda>e. is_file (snd e)) es)"
  let ?h = "\<lambda>e. case snd e of Dir sub \<Rightarrow> walk_tree (path_join dirpath (fst e)) sub | File _ \<Rightarrow> []"
  let ?h' = "\<lambda>e. case snd e of Dir sub \<Rightarrow> map ?g (map ((#) (fst e)) (rel_files sub)) | File _ \<Rightarrow> []"
  have pf: "\<forall>f \<in> set ?files. proper_name f"
    using wf_entries_file [OF 1(3)] by auto
  have top: "upload_files ev ?d b p dirpath ?files
           = upload_list ev b (map ?g (map (\<lambda>e. [fst e]) (filter (\<lambda>e. is_file (snd e)) es)))"
    unfolding 1(4) upload_files_rel [OF assms 1(2) pf] by (simp add: comp_def)
  have sub: "upload_walk ev ?d b p (?h e) = upload_list ev b (?h' e)" if e: "e \<in> set es" for e
  proof (cases "snd e")
    case (File c)
    then show ?thesis by simp
  next
    case (Dir sub)
    have pe: "proper_name (fst e)" using wf_entries_file [OF 1(3) e] .
    have a: "\<forall>c \<in> set (ds @ [fst e]). proper_name c" using 1(2) pe by simp
    have b: "wf_entries sub" using 1(3) e Dir by (rule wf_entries_sub)
    have c: "path_join dirpath (fst e) = cat_path ?d (ds @ [fst e])"
      unfolding 1(4) using 1(2) pe tmp_ne last_tmp [OF assms] by (rule path_join_cat)
    from 1(1) [OF e Dir a b c] Dir show ?thesis by (simp add: comp_def)
  qed
  have rest: "upload_walk ev ?d b p (concat (map ?h es)) = upload_list ev b (concat (map ?h' es))"
    using sub by (rule upload_walk_concat)
  have m: "map ?g (rel_files es)
         = map ?g (map (\<lambda>e. [fst e]) (filter (\<lambda>e. is_file (snd e)) es)) @ concat (map ?h' es)"
    by (subst rel_files.simps) (auto simp: map_concat comp_def split: node.splits intro!: arg_cong [where f = concat])
  have "upload_walk ev ?d b p (walk_tree dirpath es)
      = and_then (upload_files ev ?d b p dirpath ?files)
          (\<lambda>_. upload_walk ev ?d b p (concat (map ?h es)))"
    by (subst walk_tree.simps) simp
  then show ?case unfolding top rest m upload_list_append .
qed


lemma wf_entries_distinct: "wf_entries es \<Longrightarrow> distinct (map fst es)"
  by (subst (asm) wf_entries.simps) blast

lemma rel_files_iff:
  "rel \<in> set (rel_files es) \<longleftrightarrow>
     (\<exists>e \<in> set es. is_file (snd e) \<and> rel = [fst e])
     \<or> (\<exists>e \<in> set es. \<exists>sub. snd e = Dir sub \<and> (\<exists>rel' \<in> set (rel_files sub). rel = fst e # rel'))"
proof -
  have "rel \<in> set (rel_files es) \<longleftrightarrow>
     rel \<in> set (map (\<lambda>e. [fst e]) (filter (\<lambda>e. is_file (snd e)) es))
     \<or> (\<exists>e \<in> set es. rel \<in> set (case snd e of
                                     Dir sub \<Rightarrow> map ((#) (fst e)) (rel_files sub)
                                   | File _ \<Rightarrow> []))"
    by (subst rel_files.simps) simp
  also have "rel \<in> set (map (\<lambda>e. [fst e]) (filter (\<lambda>e. is_file (snd e)) es))
       \<longleftrightarrow> (\<exists>e \<in> set es. is_file (snd e) \<and> rel = [fst e])"
    by auto
  also have "(\<exists>e \<in> set es. rel \<in> set (case snd e of
                                     Dir sub \<Rightarrow> map ((#) (fst e)) (rel_files sub)
                                   | File _ \<Rightarrow> []))
       \<longleftrightarrow> (\<exists>e \<in> set es. \<exists>sub. snd e = Dir sub
               \<and> (\<exists>rel' \<in> set (rel_files sub). rel = fst e # rel'))"
  proof (intro bex_cong refl)
    fix e
    show "rel \<in> set (case snd e of Dir sub \<Rightarrow> map ((#) (fst e)) (rel_files sub) | File _ \<Rightarrow> [])
       \<longleftrightarrow> (\<exists>sub. snd e = Dir sub \<and> (\<exists>rel' \<in> set (rel_files sub). rel = fst e # rel'))"
      by (cases "snd e") auto
  qed
  finally show ?thesis .
qed

lemma rel_files_lookup:
  "wf_entries es \<Longrightarrow> rel \<in> set (rel_files es) \<longleftrightarrow> (\<exists>c. fs_lookup rel (Dir es) = Some (File c))"
proof (induction es arbitrary: rel rule: rel_files.induct)
  case (1 es)
  have d: "distinct (map fst es)" using 1(2) by (rule wf_entries_distinct)
  show ?case
  proof (cases rel)
    case Nil
    then show ?thesis by (auto simp: rel_files_iff [of "[]" es])
  next
    case (Cons x xs)
    show ?thesis
    proof (cases "map_of es x")
      case None
      then have "\<forall>e \<in> set es. fst e \<noteq> x" by (auto simp: map_of_eq_None_iff)
      with None Cons show ?thesis by (auto simp: rel_files_iff [of "x # xs" es])
    next
      case (Some m)
      then have mem: "(x, m) \<in> set es" by (rule map_of_SomeD)
      have uniq: "snd e = m" if "e \<in> set es" "fst e = x" for e
      proof -
        from that(1) have "(fst e, snd e) \<in> set es" by simp
        with d have "map_of es (fst e) = Some (snd e)" by (rule map_of_is_SomeI)
        with Some that(2) show ?thesis by simp
      qed
      show ?thesis
      proof (cases m)
        case (File c)
        have "x # xs \<in> set (rel_files es) \<longleftrightarrow> xs = []"
        proof
          assume "x # xs \<in> set (rel_files es)"
          then consider e where "e \<in> set es" "x # xs = [fst e]"
            | e sub rel' where "e \<in> set es" "snd e = Dir sub" "x # xs = fst e # rel'"
            unfolding rel_files_iff [of "x # xs" es] by blast
          then show "xs = []"
          proof cases
            case 1
            then show ?thesis by simp
          next
            case 2
            with uniq [of e] File show ?thesis by simp
          qed
        next
          assume "xs = []"
          with mem File have "(x, m) \<in> set es \<and> is_file (snd (x, m)) \<and> x # xs = [fst (x, m)]"
            by (simp add: is_file_def)
          then show "x # xs \<in> set (rel_files es)"
            unfolding rel_files_iff [of "x # xs" es] by blast
        qed
        moreover have "(\<exists>c. fs_lookup (x # xs) (Dir es) = Some (File c)) \<longleftrightarrow> xs = []"
          using Some File by (cases xs) simp_all
        ultimately show ?thesis using Cons by simp
      next
        case (Dir sub)
        have w: "wf_entries sub" using 1(2) mem Dir by (auto intro: wf_entries_sub)
        have "x # xs \<in> set (rel_files es) \<longleftrightarrow> xs \<in> set (rel_files sub)"
        proof
          assume "x # xs \<in> set (rel_files es)"
          then consider e where "e \<in> set es" "is_file (snd e)" "x # xs = [fst e]"
            | e sub' rel' where "e \<in> set es" "snd e = Dir sub'" "rel' \<in> set (rel_files sub')"
                "x # xs = fst e # rel'"
            unfolding rel_files_iff [of "x # xs" es] by blast
          then show "xs \<in> set (rel_files sub)"
          proof cases
            case 1
            with uniq [of e] Dir show ?thesis by (simp add: is_file_def)
          next
            case 2
            with uniq [of e] Dir show ?thesis by simp
          qed
        next
          assume "xs \<in> set (rel_files sub)"
          with mem Dir have "(x, m) \<in> set es \<and> snd (x, m) = Dir sub
              \<and> xs \<in> set (rel_files sub) \<and> x # xs = fst (x, m) # xs" by simp
          then show "x # xs \<in> set (rel_files es)"
            unfolding rel_files_iff [of "x # xs" es] by blast
        qed
        also have "\<dots> \<longleftrightarrow> (\<exists>c. fs_lookup xs (Dir sub) = Some (File c))"
          using 1(1) [OF mem _ w] Dir by simp
        finally show ?thesis using Cons Some Dir by simp
      qed
    qed
  qed
qed

lemma rel_files_proper:
  "wf_entries es \<Longrightarrow> rel \<in> set (rel_files es) \<Longrightarrow> rel \<noteq> [] \<and> (\<forall>c \<in> set rel. proper_name c)"
proof (induction es arbitrary: rel rule: rel_files.induct)
  case (1 es)
  from 1(3) consider e where "e \<in> set es" "rel = [fst e]"
    | e sub rel' where "e \<in> set es" "snd e = Dir sub" "rel' \<in> set (rel_files sub)" "rel = fst e # rel'"
    unfolding rel_files_iff [of rel es] by blast
  then show ?case
  proof cases
    case 1
    with wf_entries_file [OF \<open>wf_entries es\<close>] show ?thesis by simp
  next
    case 2
    from \<open>wf_entries es\<close> 2(1,2) have "wf_entries sub" by (rule wf_entries_sub)
    from "1.IH" [OF 2(1,2) this 2(3)] wf_entries_file [OF \<open>wf_entries es\<close> 2(1)] 2(4)
    show ?thesis by simp
  qed
qed

lemma upload_blob_calls:
  "upload_blob ev b l key w = (r, w') \<Longrightarrow> calls w' = calls w @ [UploadBlob b l key]"
  by (auto simp: upload_blob_app split: sum.splits if_splits)

lemma upload_list_calls:
  "upload_list ev b xs w = (r, w') \<Longrightarrow>
     \<exists>k \<le> length xs. calls w' = calls w @ map (\<lambda>(l, key). UploadBlob b l key) (take k xs)
        \<and> (\<forall>u. r = Inr u \<longrightarrow> k = length xs)"
proof (induction xs arbitrary: w)
  case Nil
  then show ?case by (simp add: ok_app)
next
  case (Cons x xs)
  obtain l key where x: "x = (l, key)" by (cases x)
  obtain r1 w1 where u: "upload_blob ev b l key w = (r1, w1)" by (cases "upload_blob ev b l key w")
  have c1: "calls w1 = calls w @ [UploadBlob b l key]" using u by (rule upload_blob_calls)
  show ?case
  proof (cases r1)
    case (Inl e)
    with Cons.prems x u have "r = Inl e" "w' = w1" by (simp_all add: and_then_app)
    with c1 x have "Suc 0 \<le> length (x # xs)
        \<and> calls w' = calls w @ map (\<lambda>(l, key). UploadBlob b l key) (take (Suc 0) (x # xs))
        \<and> (\<forall>u. r = Inr u \<longrightarrow> Suc 0 = length (x # xs))" by simp
    then show ?thesis by blast
  next
    case (Inr v)
    with Cons.prems x u have "upload_list ev b xs w1 = (r, w')" by (simp add: and_then_app)
    from Cons.IH [OF this] obtain k where k: "k \<le> length xs"
      "calls w' = calls w1 @ map (\<lambda>(l, key). UploadBlob b l key) (take k xs)"
      "\<forall>u. r = Inr u \<longrightarrow> k = length xs" by blast
    with c1 x have "Suc k \<le> length (x # xs)
        \<and> calls w' = calls w @ map (\<lambda>(l, key). UploadBlob b l key) (take (Suc k) (x # xs))
        \<and> (\<forall>u. r = Inr u \<longrightarrow> Suc k = length (x # xs))" by simp
    then show ?thesis by blast
  qed
qed

lemma path_join_dash:
  assumes "rel \<noteq> []" and "\<forall>c \<in> set rel. proper_name c"
  shows "path_join (b @ ''/dash/'') (join_sep rel) = b @ ''/dash/'' @ join_sep rel"
proof -
  obtain c cs where rel: "rel = c # cs" using assms(1) by (cases rel) auto
  with assms(2) have "c \<noteq> []" "CHR ''/'' \<notin> set c" by (auto simp: proper_name_def)
  then have "hd c \<noteq> CHR ''/''" by (metis hd_in_set)
  with \<open>c \<noteq> []\<close> have "hd (join_sep rel) \<noteq> CHR ''/''"
    by (simp add: rel join_sep_cat cat_path_def)
  then show ?thesis by (simp add: path_join_def)
qed

lemma lookup_tmp_dirs:
  assumes "fs_lookup [''tmp'', n] r = Some m"
  shows "fs_kind [] r = Some True" and "fs_kind [''tmp''] r = Some True"
proof -
  from assms have "fs_kind ([''tmp''] @ [n]) r = Some (is_dir m)" by (simp add: fs_kind_def)
  then show t: "fs_kind [''tmp''] r = Some True" by (rule fs_kind_parent)
  then have "fs_kind ([] @ [''tmp'']) r = Some True" by simp
  then show "fs_kind [] r = Some True" by (rule fs_kind_parent)
qed

lemma upload_directory_rel:
  assumes "proper_name n" and "fs_lookup [''tmp'', n] (fs w) = Some (Dir es)" and "wf_entries es"
  shows "upload_directory ev (''/tmp/'' @ n) b p w
       = upload_list ev b
           (map (\<lambda>rel. (''/tmp/'' @ n @ ''/'' @ join_sep rel, path_join p (join_sep rel)))
              (rel_files es)) w"
proof -
  have res: "resolve (fs w) (''/tmp/'' @ n) = Inr [''tmp'', n]"
    using lookup_tmp_dirs [OF assms(2)] assms(1) by (rule resolve_tmp)
  have walk: "os_walk (fs w) (''/tmp/'' @ n) = walk_tree (''/tmp/'' @ n) es"
    unfolding os_walk_def res using assms(2) by simp
  have e1: "upload_directory ev (''/tmp/'' @ n) b p w
          = upload_walk ev (''/tmp/'' @ n) b p (walk_tree (''/tmp/'' @ n) es) w"
    unfolding upload_directory_app walk ..
  have e2: "upload_walk ev (''/tmp/'' @ n) b p (walk_tree (''/tmp/'' @ n) es)
          = upload_list ev b
              (map (\<lambda>rel. (cat_path (''/tmp/'' @ n) ([] @ rel), path_join p (join_sep ([] @ rel))))
                 (rel_files es))"
    by (rule upload_walk_rel [OF assms(1) _ assms(3)]) simp_all
  have e3: "map (\<lambda>rel. (cat_path (''/tmp/'' @ n) ([] @ rel), path_join p (join_sep ([] @ rel)))) (rel_files es)
      = map (\<lambda>rel. (''/tmp/'' @ n @ ''/'' @ join_sep rel, path_join p (join_sep rel))) (rel_files es)"
    using rel_files_proper [OF assms(3)] by (auto simp: cat_path_join)
  show ?thesis unfolding e1 e2 e3 ..
qed


section \<open>Claims\<close>

text \<open>
  C4 (as the claim states it, refuted). The claim says that deriving the job base name is
  idempotent. It is not: the key \<open>a.b.mov\<close> gives \<open>a.b\<close>, and deriving again from
  \<open>a.b\<close> strips a further extension and gives \<open>a\<close>.
\<close>

theorem C4_idempotence_counterexample:
  "base_file_name_of (base_file_name_of ''a.b.mov'') \<noteq> base_file_name_of ''a.b.mov''"
  by (simp add: base_a_b_mov base_a_b)

text \<open>
  C4 (amended). For every object key the job base name is the basename of the key with
  only its final extension stripped. The basename is what follows the last slash of the
  key (the whole key when it has none). When the basename is \<open>stem.ext\<close> with a dot-free
  \<open>ext\<close> and a \<open>stem\<close> that has a character other than a dot, the base name is
  \<open>stem\<close>: the text from the last dot on is removed, and nothing else. In every other
  case (no dot, or only dots before the last dot) the base name is the whole basename.
  So \<open>clip.mp4\<close> gives \<open>clip\<close> and \<open>a.b.mov\<close> gives \<open>a.b\<close>. Deriving again
  from a derived base name returns it unchanged exactly when that name has no such
  extension.
\<close>

theorem C4_base_name_strips_final_extension:
  "base_file_name_of ''clip.mp4'' = ''clip''
   \<and> base_file_name_of ''a.b.mov'' = ''a.b''
   \<and> (\<exists>dir. k = dir @ basename k \<and> (dir = [] \<or> last dir = CHR ''/'')
          \<and> CHR ''/'' \<notin> set (basename k))
   \<and> (\<forall>stem ext. basename k = stem @ CHR ''.'' # ext \<and> CHR ''.'' \<notin> set ext
          \<and> (\<exists>c \<in> set stem. c \<noteq> CHR ''.'') \<longrightarrow> base_file_name_of k = stem)
   \<and> ((\<nexists>stem ext. basename k = stem @ CHR ''.'' # ext \<and> CHR ''.'' \<notin> set ext
          \<and> (\<exists>c \<in> set stem. c \<noteq> CHR ''.'')) \<longrightarrow> base_file_name_of k = basename k)
   \<and> (base_file_name_of (base_file_name_of k) = base_file_name_of k
        \<longleftrightarrow> (\<nexists>stem ext. base_file_name_of k = stem @ CHR ''.'' # ext \<and> CHR ''.'' \<notin> set ext
                \<and> (\<exists>c \<in> set stem. c \<noteq> CHR ''.'')))"
proof -
  have a: "\<exists>dir. k = dir @ basename k \<and> (dir = [] \<or> last dir = CHR ''/'')
          \<and> CHR ''/'' \<notin> set (basename k)"
    using basename_split [of k] basename_no_sep [of k] by blast
  have b: "base_file_name_of k = stem"
    if h: "basename k = stem @ CHR ''.'' # ext \<and> CHR ''.'' \<notin> set ext
          \<and> (\<exists>c \<in> set stem. c \<noteq> CHR ''.'')" for stem ext
  proof -
    from h basename_no_sep [of k] have "CHR ''/'' \<notin> set stem" "CHR ''/'' \<notin> set ext" by auto
    with h have "splitext (basename k) = (stem, CHR ''.'' # ext)"
      by (simp add: splitext_split)
    then show ?thesis by (simp add: base_file_name_of_def)
  qed
  have c: "base_file_name_of k = basename k"
    if "\<nexists>stem ext. basename k = stem @ CHR ''.'' # ext \<and> CHR ''.'' \<notin> set ext
          \<and> (\<exists>c \<in> set stem. c \<noteq> CHR ''.'')"
    using splitext_none [OF basename_no_sep that] by (simp add: base_file_name_of_def)
  let ?b = "base_file_name_of k"
  have d: "snd (splitext ?b) = []
        \<longleftrightarrow> (\<nexists>stem ext. ?b = stem @ CHR ''.'' # ext \<and> CHR ''.'' \<notin> set ext
                \<and> (\<exists>c \<in> set stem. c \<noteq> CHR ''.''))"
  proof
    assume e: "snd (splitext ?b) = []"
    show "\<nexists>stem ext. ?b = stem @ CHR ''.'' # ext \<and> CHR ''.'' \<notin> set ext
                \<and> (\<exists>c \<in> set stem. c \<noteq> CHR ''.'')"
    proof
      assume "\<exists>stem ext. ?b = stem @ CHR ''.'' # ext \<and> CHR ''.'' \<notin> set ext
                \<and> (\<exists>c \<in> set stem. c \<noteq> CHR ''.'')"
      then obtain stem ext where h: "?b = stem @ CHR ''.'' # ext" "CHR ''.'' \<notin> set ext"
        "\<exists>c \<in> set stem. c \<noteq> CHR ''.''" by blast
      from h(1) base_file_name_of_no_sep [of k]
      have "CHR ''/'' \<notin> set stem" "CHR ''/'' \<notin> set ext" by auto
      with h have "splitext ?b = (stem, CHR ''.'' # ext)" by (simp add: splitext_split)
      with e show False by simp
    qed
  next
    assume "\<nexists>stem ext. ?b = stem @ CHR ''.'' # ext \<and> CHR ''.'' \<notin> set ext
                \<and> (\<exists>c \<in> set stem. c \<noteq> CHR ''.'')"
    from splitext_none [OF base_file_name_of_no_sep this]
    show "snd (splitext ?b) = []" by simp
  qed
  show ?thesis
    using base_clip base_a_b_mov a b c base_file_name_of_twice [of k] d by blast
qed

theorem C4_base_name_witness:
  "base_file_name_of ''videos/clip.mp4'' = ''clip''
   \<and> base_file_name_of ''videos/README'' = ''README''
   \<and> base_file_name_of (base_file_name_of ''videos/clip.mp4'')
        = base_file_name_of ''videos/clip.mp4''"
proof -
  have b1: "basename ''videos/clip.mp4'' = ''clip'' @ CHR ''.'' # ''mp4''"
    and b2: "basename ''videos/README'' = ''README''"
    by (simp_all add: basename_def Let_def)
  have n: "\<nexists>stem ext. ''README'' = stem @ CHR ''.'' # ext \<and> CHR ''.'' \<notin> set ext
          \<and> (\<exists>c \<in> set stem. c \<noteq> CHR ''.'')"
    by (rule no_dot_no_extension) simp
  have m: "\<nexists>stem ext. ''clip'' = stem @ CHR ''.'' # ext \<and> CHR ''.'' \<notin> set ext
          \<and> (\<exists>c \<in> set stem. c \<noteq> CHR ''.'')"
    by (rule no_dot_no_extension) simp
  note d = C4_base_name_strips_final_extension [of "''videos/clip.mp4''",
      THEN conjunct2, THEN conjunct2, THEN conjunct2, THEN conjunct1, rule_format,
      of "''clip''" "''mp4''"]
  have c1: "base_file_name_of ''videos/clip.mp4'' = ''clip''"
    by (rule d) (simp add: b1)
  note e = C4_base_name_strips_final_extension [of "''videos/README''",
      THEN conjunct2, THEN conjunct2, THEN conjunct2, THEN conjunct2, THEN conjunct1,
      rule_format]
  have c2: "base_file_name_of ''videos/README'' = ''README''"
    using e n unfolding b2 by blast
  note f = C4_base_name_strips_final_extension [of "''videos/clip.mp4''",
      THEN conjunct2, THEN conjunct2, THEN conjunct2, THEN conjunct2, THEN conjunct2]
  have c3: "base_file_name_of (base_file_name_of ''videos/clip.mp4'')
        = base_file_name_of ''videos/clip.mp4''"
    using f m unfolding c1 by blast
  from c1 c2 c3 show ?thesis by simp
qed


text \<open>
  C8 (as the claim states it, refuted). The claim says that the handler proceeds for every
  non-empty parseable payload, whatever it contains. The body \<open>false\<close> is non-empty and
  parses, yet the handler answers 400 and calls nothing: \<open>not request_json\<close> is Python
  truth testing of the parsed value.
\<close>

theorem C8_payload_false_counterexample:
  "transcoder_handler env_ok \<lparr>get_json = Some (JBool False)\<rparr> movie_world
     = ((\<lparr>statusCode = 400, message = ''Invalid input. JSON body required.'',
          outputPath = None, error = None\<rparr>, Some 400), movie_world)"
  by (simp add: transcoder_handler_eq transcoder_handler_try_app falsy_request_def ok_app
      response_400_def)

text \<open>
  C8 (amended). For every request whose payload is absent, does not parse, or parses to a
  value that Python counts as false (\<open>null\<close>, \<open>false\<close>, zero, the empty string, list or
  object), the handler returns the invalid-input result with status 400 and does nothing
  else: the world is unchanged. For every request whose payload parses to a value that
  counts as true, the handler proceeds whatever the payload contains: the result is not a
  400 and the next step, listing the source bucket, is made.
\<close>

theorem C8_request_validation:
  "((get_json req = None \<or> (\<exists>j. get_json req = Some j \<and> \<not> truthy j)) \<longrightarrow>
      transcoder_handler ev req w
        = ((\<lparr>statusCode = 400, message = ''Invalid input. JSON body required.'',
             outputPath = None, error = None\<rparr>, Some 400), w))
   \<and> ((\<exists>j. get_json req = Some j \<and> truthy j) \<longrightarrow>
        statusCode (fst (fst (transcoder_handler ev req w))) \<noteq> 400
        \<and> snd (fst (transcoder_handler ev req w)) \<noteq> Some 400
        \<and> prefix (calls w @ [ListBlobs SOURCE_BUCKET_NAME])
             (calls (snd (transcoder_handler ev req w))))"
proof (intro conjI impI)
  assume "get_json req = None \<or> (\<exists>j. get_json req = Some j \<and> \<not> truthy j)"
  then have "falsy_request req" by (auto simp: falsy_request_def)
  then show "transcoder_handler ev req w
        = ((\<lparr>statusCode = 400, message = ''Invalid input. JSON body required.'',
             outputPath = None, error = None\<rparr>, Some 400), w)"
    by (simp add: transcoder_handler_eq transcoder_handler_try_app ok_app response_400_def)
next
  assume "\<exists>j. get_json req = Some j \<and> truthy j"
  then have nf: "\<not> falsy_request req" by (auto simp: falsy_request_def)
  obtain r w' where run: "transcoder_handler ev req w = (r, w')"
    by (cases "transcoder_handler ev req w")
  from transcoder_handler_cases [OF run] nf
  consider "r = response_500 StorageError" "w' = w\<lparr>calls := calls w @ [ListBlobs SOURCE_BUCKET_NAME]\<rparr>"
    | "r = response_404" "w' = w\<lparr>calls := calls w @ [ListBlobs SOURCE_BUCKET_NAME]\<rparr>"
    | b x where "process_blob ev b (w\<lparr>calls := calls w @ [ListBlobs SOURCE_BUCKET_NAME]\<rparr>) = (x, w')"
        "r = (case x of Inr r' \<Rightarrow> r' | Inl e \<Rightarrow> response_500 e)"
    by blast
  then have "statusCode (fst r) \<noteq> 400 \<and> snd r \<noteq> Some 400
      \<and> prefix (calls w @ [ListBlobs SOURCE_BUCKET_NAME]) (calls w')"
  proof cases
    case 1
    then show ?thesis by (simp add: response_500_def)
  next
    case 2
    then show ?thesis by (simp add: response_404_def)
  next
    case 3
    from growsD [OF grows_process_blob 3(1)]
    have p: "prefix (calls w @ [ListBlobs SOURCE_BUCKET_NAME]) (calls w')" by simp
    show ?thesis
    proof (cases x)
      case (Inl e)
      with 3 p show ?thesis by (simp add: response_500_def)
    next
      case (Inr r')
      with 3(1) have "r' = response_200 b" using process_blob_Inr by blast
      with 3(2) Inr p show ?thesis by (simp add: response_200_def)
    qed
  qed
  with run show "statusCode (fst (fst (transcoder_handler ev req w))) \<noteq> 400"
    and "snd (fst (transcoder_handler ev req w)) \<noteq> Some 400"
    and "prefix (calls w @ [ListBlobs SOURCE_BUCKET_NAME])
             (calls (snd (transcoder_handler ev req w)))" by simp_all
qed

theorem C8_request_validation_witness:
  "transcoder_handler env_ok \<lparr>get_json = Some (JInt 0)\<rparr> movie_world
        = ((\<lparr>statusCode = 400, message = ''Invalid input. JSON body required.'',
             outputPath = None, error = None\<rparr>, Some 400), movie_world)
   \<and> statusCode (fst (fst (transcoder_handler env_ok \<lparr>get_json = Some (JInt 7)\<rparr> movie_world))) \<noteq> 400
   \<and> prefix (calls movie_world @ [ListBlobs SOURCE_BUCKET_NAME])
        (calls (snd (transcoder_handler env_ok \<lparr>get_json = Some (JInt 7)\<rparr> movie_world)))"
  using C8_request_validation [of "\<lparr>get_json = Some (JInt 0)\<rparr>" env_ok movie_world]
    C8_request_validation [of "\<lparr>get_json = Some (JInt 7)\<rparr>" env_ok movie_world]
  by simp

text \<open>
  C7. When the source bucket is empty (the request being valid and the listing call
  succeeding), the handler returns the 404 result and the only thing that has happened is
  the listing call: the destination bucket, the local disk and the published messages are
  as before, and no copy, download, transcode, upload or publish call was made.
\<close>

theorem C7_empty_bucket:
  assumes "\<exists>j. get_json req = Some j \<and> truthy j"
    and "\<not> list_blobs_fails ev"
    and "source_bucket w = []"
  shows "transcoder_handler ev req w
           = ((\<lparr>statusCode = 404, message = ''No files found in source bucket.'',
                outputPath = None, error = None\<rparr>, Some 404),
              w\<lparr>calls := calls w @ [ListBlobs SOURCE_BUCKET_NAME]\<rparr>)"
proof -
  from assms(1) have nf: "\<not> falsy_request req" by (auto simp: falsy_request_def)
  with assms(2,3) show ?thesis
    by (simp add: transcoder_handler_eq transcoder_handler_try_app and_then_app
        get_latest_blob_run ok_app response_404_def)
qed

theorem C7_empty_bucket_witness:
  "transcoder_handler env_ok req_ok empty_world
     = ((\<lparr>statusCode = 404, message = ''No files found in source bucket.'',
          outputPath = None, error = None\<rparr>, Some 404),
        empty_world\<lparr>calls := calls empty_world @ [ListBlobs SOURCE_BUCKET_NAME]\<rparr>)"
  by (rule C7_empty_bucket) (simp_all add: req_ok_def env_ok_def empty_world_def world_of_def)

text \<open>
  C1. For a valid request and a listing that succeeds: on an empty source bucket the
  selection yields no object and the handler returns the 404 result; on a non-empty source
  bucket the selected object has the maximum creation time among all listed objects (it is
  the first such object of the listing: every object before it is strictly older, every
  object after it is not newer), and it is the object the handler goes on to process: the
  call after the listing is the archive copy of that object.
\<close>

theorem C1_latest_blob_selected:
  assumes "\<not> list_blobs_fails ev"
    and "\<exists>j. get_json req = Some j \<and> truthy j"
  shows "(source_bucket w = [] \<longrightarrow>
            fst (get_latest_blob ev SOURCE_BUCKET_NAME w) = Inr None
            \<and> fst (transcoder_handler ev req w)
                = (\<lparr>statusCode = 404, message = ''No files found in source bucket.'',
                     outputPath = None, error = None\<rparr>, Some 404))
       \<and> (source_bucket w \<noteq> [] \<longrightarrow>
            (\<exists>pre b post.
               source_bucket w = pre @ b # post
               \<and> (\<forall>x\<in>set pre. time_created x < time_created b)
               \<and> (\<forall>x\<in>set post. time_created x \<le> time_created b)
               \<and> fst (get_latest_blob ev SOURCE_BUCKET_NAME w) = Inr (Some b)
               \<and> prefix (calls w @ [ListBlobs SOURCE_BUCKET_NAME,
                                    CopyBlob (name b) DESTINATION_BUCKET_NAME
                                      (base_file_name_of (name b) @ ''/original/'' @ name b)])
                    (calls (snd (transcoder_handler ev req w)))))"
proof (intro conjI impI)
  assume e: "source_bucket w = []"
  from assms(2) have nf: "\<not> falsy_request req" by (auto simp: falsy_request_def)
  show "fst (get_latest_blob ev SOURCE_BUCKET_NAME w) = Inr None"
    using assms(1) e by (simp add: get_latest_blob_run)
  show "fst (transcoder_handler ev req w)
          = (\<lparr>statusCode = 404, message = ''No files found in source bucket.'',
               outputPath = None, error = None\<rparr>, Some 404)"
    using nf assms(1) e
    by (simp add: transcoder_handler_eq transcoder_handler_try_app and_then_app
        get_latest_blob_run ok_app response_404_def)
next
  assume ne: "source_bucket w \<noteq> []"
  from assms(2) have nf: "\<not> falsy_request req" by (auto simp: falsy_request_def)
  from py_max_split [OF ne, of time_created]
  obtain pre b post where split: "source_bucket w = pre @ b # post"
    and mx: "py_max time_created (source_bucket w) = Some b"
    and lt: "\<forall>x\<in>set pre. time_created x < time_created b"
    and le: "\<forall>x\<in>set post. time_created x \<le> time_created b" by blast
  have g: "fst (get_latest_blob ev SOURCE_BUCKET_NAME w) = Inr (Some b)"
    using assms(1) mx by (simp add: get_latest_blob_run)
  obtain x w' where p: "process_blob ev b (w\<lparr>calls := calls w @ [ListBlobs SOURCE_BUCKET_NAME]\<rparr>) = (x, w')"
    by (cases "process_blob ev b (w\<lparr>calls := calls w @ [ListBlobs SOURCE_BUCKET_NAME]\<rparr>)")
  have "snd (transcoder_handler ev req w) = w'"
    using nf assms(1) mx p
    by (cases x) (simp_all add: transcoder_handler_eq transcoder_handler_try_app and_then_app
        get_latest_blob_run)
  moreover from process_blob_first_call [OF p]
  have "prefix (calls w @ [ListBlobs SOURCE_BUCKET_NAME,
                                    CopyBlob (name b) DESTINATION_BUCKET_NAME
                                      (base_file_name_of (name b) @ ''/original/'' @ name b)])
          (calls w')" by simp
  ultimately show "\<exists>pre b post.
               source_bucket w = pre @ b # post
               \<and> (\<forall>x\<in>set pre. time_created x < time_created b)
               \<and> (\<forall>x\<in>set post. time_created x \<le> time_created b)
               \<and> fst (get_latest_blob ev SOURCE_BUCKET_NAME w) = Inr (Some b)
               \<and> prefix (calls w @ [ListBlobs SOURCE_BUCKET_NAME,
                                    CopyBlob (name b) DESTINATION_BUCKET_NAME
                                      (base_file_name_of (name b) @ ''/original/'' @ name b)])
                    (calls (snd (transcoder_handler ev req w)))"
    using split lt le g by blast
qed

theorem C1_latest_blob_selected_witness:
  "fst (get_latest_blob env_ok SOURCE_BUCKET_NAME empty_world) = Inr None
   \<and> fst (transcoder_handler env_ok req_ok empty_world)
        = (\<lparr>statusCode = 404, message = ''No files found in source bucket.'',
             outputPath = None, error = None\<rparr>, Some 404)
   \<and> (\<exists>pre b post.
          source_bucket two_blobs_world = pre @ b # post
          \<and> (\<forall>x\<in>set pre. time_created x < time_created b)
          \<and> (\<forall>x\<in>set post. time_created x \<le> time_created b)
          \<and> fst (get_latest_blob env_ok SOURCE_BUCKET_NAME two_blobs_world) = Inr (Some b)
          \<and> prefix (calls two_blobs_world @ [ListBlobs SOURCE_BUCKET_NAME,
                        CopyBlob (name b) DESTINATION_BUCKET_NAME
                          (base_file_name_of (name b) @ ''/original/'' @ name b)])
               (calls (snd (transcoder_handler env_ok req_ok two_blobs_world))))"
proof -
  have e: "\<not> list_blobs_fails env_ok" "\<exists>j. get_json req_ok = Some j \<and> truthy j"
    by (simp_all add: env_ok_def req_ok_def)
  have s: "source_bucket empty_world = []" "source_bucket two_blobs_world \<noteq> []"
    by (simp_all add: empty_world_def two_blobs_world_def world_of_def)
  show ?thesis
    using C1_latest_blob_selected [OF e, of empty_world]
      C1_latest_blob_selected [OF e, of two_blobs_world] s
    by simp
qed
text \<open>
  C2. In every run, a transcode call is preceded by the archive copy of the selected
  object: whenever the call log contains a transcode call, it begins with the listing and
  the copy of the selected object to \<open>{base}/original/{originalKey}\<close>. Consequently, in
  every run in which the transcode process is started and exits with a non-zero code, the
  handler returns the 500 result carrying that failure, the calls made are exactly the
  listing, the archive copy, the creation of the DASH directory, the download and the
  transcode (so no upload and no publish call), the destination bucket is the initial one
  with the archived original added under its key, and nothing has been published.
\<close>

theorem C2_archive_before_transcode:
  assumes "calls w = []"
    and "transcoder_handler ev req w = (r, w')"
    and "RunTranscode src out \<in> set (calls w')"
  shows "\<exists>b. py_max time_created (source_bucket w) = Some b
     \<and> prefix [ListBlobs SOURCE_BUCKET_NAME,
                CopyBlob (name b) DESTINATION_BUCKET_NAME
                  (base_file_name_of (name b) @ ''/original/'' @ name b)] (calls w')
     \<and> (\<forall>rc. dash_result ev = Exited rc \<and> rc \<noteq> 0 \<longrightarrow>
           r = (\<lparr>statusCode = 500, message = ''Internal server error.'', outputPath = None,
                  error = Some (CalledProcessError rc)\<rparr>, Some 500)
           \<and> calls w' =
               [ListBlobs SOURCE_BUCKET_NAME,
                CopyBlob (name b) DESTINATION_BUCKET_NAME
                  (base_file_name_of (name b) @ ''/original/'' @ name b),
                Makedirs (''/tmp/'' @ base_file_name_of (name b) @ ''_dash''),
                DownloadBlob SOURCE_BUCKET_NAME (name b) (''/tmp/'' @ name b),
                RunTranscode (''/tmp/'' @ name b)
                  (''/tmp/'' @ base_file_name_of (name b) @ ''_dash/manifest.mpd'')]
           \<and> destination_bucket w' =
               (destination_bucket w)((base_file_name_of (name b) @ ''/original/'' @ name b)
                                        \<mapsto> content b)
           \<and> published w' = published w)"
proof -
  let ?w0 = "w\<lparr>calls := calls w @ [ListBlobs SOURCE_BUCKET_NAME]\<rparr>"
  from transcoder_handler_cases [OF assms(2)] assms(1,3)
  obtain b x where b: "py_max time_created (source_bucket w) = Some b"
    and p: "process_blob ev b ?w0 = (x, w')"
    and r: "r = (case x of Inr r' \<Rightarrow> r' | Inl e \<Rightarrow> response_500 e)"
    by auto
  from process_blob_first_call [OF p] assms(1)
  have pre: "prefix [ListBlobs SOURCE_BUCKET_NAME,
                CopyBlob (name b) DESTINATION_BUCKET_NAME
                  (base_file_name_of (name b) @ ''/original/'' @ name b)] (calls w')"
    by simp
  have "r = (\<lparr>statusCode = 500, message = ''Internal server error.'', outputPath = None,
                  error = Some (CalledProcessError rc)\<rparr>, Some 500)
           \<and> calls w' =
               [ListBlobs SOURCE_BUCKET_NAME,
                CopyBlob (name b) DESTINATION_BUCKET_NAME
                  (base_file_name_of (name b) @ ''/original/'' @ name b),
                Makedirs (''/tmp/'' @ base_file_name_of (name b) @ ''_dash''),
                DownloadBlob SOURCE_BUCKET_NAME (name b) (''/tmp/'' @ name b),
                RunTranscode (''/tmp/'' @ name b)
                  (''/tmp/'' @ base_file_name_of (name b) @ ''_dash/manifest.mpd'')]
           \<and> destination_bucket w' =
               (destination_bucket w)((base_file_name_of (name b) @ ''/original/'' @ name b)
                                        \<mapsto> content b)
           \<and> published w' = published w"
    if rc: "dash_result ev = Exited rc" "rc \<noteq> 0" for rc
  proof -
    from process_blob_transcode_nonzero [OF p rc]
    show ?thesis
    proof (elim disjE conjE exE)
      fix e cs
      assume "calls w' = calls ?w0 @ cs" "list_all (\<lambda>c. \<not> is_transcode c) cs"
      with assms(1,3) have False by (auto simp: list_all_iff is_transcode_def)
      then show ?thesis ..
    next
      assume "x = Inl (CalledProcessError rc)"
        and "calls w' = calls ?w0 @
               [CopyBlob (name b) DESTINATION_BUCKET_NAME
                  (base_file_name_of (name b) @ ''/original/'' @ name b),
                Makedirs (''/tmp/'' @ base_file_name_of (name b) @ ''_dash''),
                DownloadBlob SOURCE_BUCKET_NAME (name b) (''/tmp/'' @ name b),
                RunTranscode (''/tmp/'' @ name b)
                  ((''/tmp/'' @ base_file_name_of (name b) @ ''_dash'') @ ''/manifest.mpd'')]"
        and "destination_bucket w' =
               (destination_bucket ?w0)((base_file_name_of (name b) @ ''/original/'' @ name b)
                                        \<mapsto> content b)"
        and "published w' = published ?w0"
      with r assms(1) show ?thesis by (simp add: response_500_def)
    qed
  qed
  with b pre show ?thesis by blast
qed

theorem C2_archive_before_transcode_witness:
  "\<exists>b. py_max time_created (source_bucket movie_world) = Some b
     \<and> prefix [ListBlobs SOURCE_BUCKET_NAME,
                CopyBlob (name b) DESTINATION_BUCKET_NAME
                  (base_file_name_of (name b) @ ''/original/'' @ name b)]
          (calls (snd (transcoder_handler env_transcode_fails req_ok movie_world)))
     \<and> fst (transcoder_handler env_transcode_fails req_ok movie_world)
          = (\<lparr>statusCode = 500, message = ''Internal server error.'', outputPath = None,
               error = Some (CalledProcessError 1)\<rparr>, Some 500)
     \<and> destination_bucket (snd (transcoder_handler env_transcode_fails req_ok movie_world))
          = (destination_bucket movie_world)
              ((base_file_name_of (name b) @ ''/original/'' @ name b) \<mapsto> content b)
     \<and> published (snd (transcoder_handler env_transcode_fails req_ok movie_world))
          = published movie_world"
proof -
  have c: "calls movie_world = []" by (simp add: movie_world_def world_of_def)
  have t: "RunTranscode ''/tmp/movie.mp4'' ''/tmp/movie_dash/manifest.mpd''
             \<in> set (calls (snd (transcoder_handler env_transcode_fails req_ok movie_world)))"
    by (simp add: run_transcode_fails)
  have d: "dash_result env_transcode_fails = Exited 1 \<and> (1::int) \<noteq> 0"
    by (simp add: env_transcode_fails_def env_ok_def)
  from C2_archive_before_transcode [OF c surjective_pairing t] d
  show ?thesis by blast
qed

text \<open>
  C9. In every run, the calls made before the first publish call include no removal of a
  file or directory: cleanup starts only after the notification call. And in every run in
  which the publish call is reached and raises (so the copy, the transcode, the thumbnail
  and the uploads before it have succeeded), the handler returns the 500 result carrying
  the publish error, the publish call is the last call of the run, no file or directory
  was removed, nothing has been published, and the three scratch paths are on the local
  disk when the handler returns: \<open>/tmp/{base}_dash\<close> is a directory, and
  \<open>/tmp/{base}_txt\<close> and \<open>/tmp/{base}.jpg\<close> exist.
\<close>

theorem C9_publish_failure_keeps_scratch:
  assumes "calls w = []"
    and "transcoder_handler ev req w = (r, w')"
  shows "list_all (\<lambda>c. \<not> is_cleanup c) (takeWhile (\<lambda>c. \<not> is_publish c) (calls w'))
     \<and> (publish_fails ev \<and> (\<exists>c \<in> set (calls w'). is_publish c) \<longrightarrow>
          (\<exists>b. py_max time_created (source_bucket w) = Some b
             \<and> r = (\<lparr>statusCode = 500, message = ''Internal server error.'', outputPath = None,
                       error = Some PublishError\<rparr>, Some 500)
             \<and> last (calls w') = Publish (''projects/'' @ PROJECT_ID @ ''/topics/'' @ PUBSUB_TOPIC_NAME)
                  (json_dumps_message (''Processing completed for '' @ base_file_name_of (name b)))
             \<and> list_all (\<lambda>c. \<not> is_cleanup c) (calls w')
             \<and> published w' = published w
             \<and> os_path_isdir (fs w') (''/tmp/'' @ base_file_name_of (name b) @ ''_dash'')
             \<and> os_path_exists (fs w') (''/tmp/'' @ base_file_name_of (name b) @ ''_txt'')
             \<and> os_path_exists (fs w') (''/tmp/'' @ base_file_name_of (name b) @ ''.jpg'')))"
proof -
  let ?w0 = "w\<lparr>calls := calls w @ [ListBlobs SOURCE_BUCKET_NAME]\<rparr>"
  from transcoder_handler_cases [OF assms(2)]
  consider "calls w' = [] \<or> calls w' = [ListBlobs SOURCE_BUCKET_NAME]"
    | b x where "py_max time_created (source_bucket w) = Some b"
        "process_blob ev b ?w0 = (x, w')"
        "r = (case x of Inr r' \<Rightarrow> r' | Inl e \<Rightarrow> response_500 e)"
    using assms(1) by auto
  then show ?thesis
  proof cases
    case 1
    then show ?thesis by auto
  next
    case (2 b x)
    from process_blob_outcomes [OF 2(2)] assms(1)
    consider cs e where "x = Inl e" "calls w' = ListBlobs SOURCE_BUCKET_NAME # cs"
        "list_all (\<lambda>c. \<not> is_publish c \<and> \<not> is_cleanup c) cs" "published w' = published w"
      | cs where "publish_fails ev" "x = Inl PublishError"
        "calls w' = ListBlobs SOURCE_BUCKET_NAME # cs @ [Publish topic_path (payload b)]"
        "list_all (\<lambda>c. \<not> is_publish c \<and> \<not> is_cleanup c) cs" "published w' = published w"
        "os_path_isdir (fs w') (''/tmp/'' @ base_file_name_of (name b) @ ''_dash'')"
        "os_path_exists (fs w') (''/tmp/'' @ base_file_name_of (name b) @ ''_txt'')"
        "os_path_exists (fs w') (''/tmp/'' @ base_file_name_of (name b) @ ''.jpg'')"
      | cs ds where "\<not> publish_fails ev"
        "calls w' = ListBlobs SOURCE_BUCKET_NAME # cs @ [Publish topic_path (payload b)] @ ds"
        "list_all (\<lambda>c. \<not> is_publish c \<and> \<not> is_cleanup c) cs"
      by auto
    then show ?thesis
    proof cases
      case 1
      from 1(2,3) have "list_all (\<lambda>c. \<not> is_cleanup c) (takeWhile (\<lambda>c. \<not> is_publish c) (calls w'))"
        by (simp add: takeWhile_all_Nil list_all_conj2)
      moreover from 1(2,3) have "\<not> (\<exists>c \<in> set (calls w'). is_publish c)"
        by (auto dest: list_all_none [OF list_all_conj1])
      ultimately show ?thesis by blast
    next
      case 2
      from 2(3,4) have a: "list_all (\<lambda>c. \<not> is_cleanup c) (takeWhile (\<lambda>c. \<not> is_publish c) (calls w'))"
        by (simp add: takeWhile_all list_all_conj2)
      from 2(3,4) have n: "list_all (\<lambda>c. \<not> is_cleanup c) (calls w')"
        by (simp add: list_all_conj2)
      from 2(3) have l: "last (calls w') = Publish (''projects/'' @ PROJECT_ID @ ''/topics/'' @ PUBSUB_TOPIC_NAME)
                  (json_dumps_message (''Processing completed for '' @ base_file_name_of (name b)))" by (simp add: topic_path_def payload_def)
      from \<open>r = (case x of Inr r' \<Rightarrow> r' | Inl e \<Rightarrow> response_500 e)\<close> 2(2)
      have "r = (\<lparr>statusCode = 500, message = ''Internal server error.'', outputPath = None,
                       error = Some PublishError\<rparr>, Some 500)" by (simp add: response_500_def)
      with a n l 2(5-8) \<open>py_max time_created (source_bucket w) = Some b\<close>
      show ?thesis by blast
    next
      case 3
      from 3(2,3) have "list_all (\<lambda>c. \<not> is_cleanup c) (takeWhile (\<lambda>c. \<not> is_publish c) (calls w'))"
        by (simp add: takeWhile_all list_all_conj2)
      with 3(1) show ?thesis by blast
    qed
  qed
qed

theorem C9_publish_failure_keeps_scratch_witness:
  "\<exists>b. py_max time_created (source_bucket movie_world) = Some b
     \<and> fst (transcoder_handler env_publish_fails req_ok movie_world)
         = (\<lparr>statusCode = 500, message = ''Internal server error.'', outputPath = None,
              error = Some PublishError\<rparr>, Some 500)
     \<and> list_all (\<lambda>c. \<not> is_cleanup c)
         (calls (snd (transcoder_handler env_publish_fails req_ok movie_world)))
     \<and> published (snd (transcoder_handler env_publish_fails req_ok movie_world))
         = published movie_world
     \<and> os_path_isdir (fs (snd (transcoder_handler env_publish_fails req_ok movie_world)))
         (''/tmp/'' @ base_file_name_of (name b) @ ''_dash'')
     \<and> os_path_exists (fs (snd (transcoder_handler env_publish_fails req_ok movie_world)))
         (''/tmp/'' @ base_file_name_of (name b) @ ''_txt'')
     \<and> os_path_exists (fs (snd (transcoder_handler env_publish_fails req_ok movie_world)))
         (''/tmp/'' @ base_file_name_of (name b) @ ''.jpg'')"
proof -
  have c: "calls movie_world = []" by (simp add: movie_world_def world_of_def)
  have p: "publish_fails env_publish_fails"
    by (simp add: env_publish_fails_def)
  have t: "\<exists>c \<in> set (calls (snd (transcoder_handler env_publish_fails req_ok movie_world))).
             is_publish c"
    by (simp add: run_publish_fails is_publish_def)
  from C9_publish_failure_keeps_scratch [OF c surjective_pairing] p t
  show ?thesis by blast
qed

text \<open>
  C3 (the code departs from the claim). The claim says that cleanup removes the three
  scratch paths, directories recursively, without raising. For a scratch directory it
  walks the whole tree with \<open>os.walk\<close> and unlinks every regular file, but it removes no
  subdirectory and then calls \<open>os.rmdir\<close> on the top directory. With
  \<open>/tmp/movie_dash\<close> holding a subdirectory \<open>audio\<close>, cleanup for the base name
  \<open>movie\<close> unlinks the two files, raises \<open>OSError\<close> (directory not empty) at
  \<open>os.rmdir('/tmp/movie_dash')\<close>, and leaves \<open>/tmp/movie_dash/audio\<close>,
  \<open>/tmp/movie_txt\<close> and \<open>/tmp/movie.jpg\<close> on the disk.
\<close>

theorem C3_nested_scratch_directory_not_removed:
  "clear_tmp_files ''movie'' nested_world =
     (Inl (OSError ENOTEMPTY ''/tmp/movie_dash''),
      nested_world
        \<lparr>fs := Dir [(''tmp'', Dir [(''movie_dash'', Dir [(''audio'', Dir [])]),
                                  (''movie_txt'', Dir []),
                                  (''movie.jpg'', File ''jpg'')])],
         calls := [Remove ''/tmp/movie_dash/manifest.mpd'',
                   Remove ''/tmp/movie_dash/audio/seg-1.m4s'',
                   Rmdir ''/tmp/movie_dash'']\<rparr>)"
  by (simp add: run_app fs_defs nested_world_def world_of_def Let_def)

text \<open>
  C6 (the code departs from the claim). The claim says that no notification is published
  on any failed run. The handler publishes the notification before it cleans up, and
  cleanup raises on a scratch directory that holds a subdirectory (the defect of
  \<open>clear_tmp_files\<close> shown under C3: the walk unlinks the files, removes no
  subdirectory, and \<open>os.rmdir\<close> then fails). With \<open>/tmp/movie_txt\<close> holding a
  subdirectory, the run for \<open>movie.mp4\<close> copies, transcodes, uploads and publishes,
  then raises in cleanup: the handler answers 500 and the notification has been
  published.
\<close>

theorem C6_notification_published_on_failed_run:
  "fst (transcoder_handler env_ok req_ok stale_world)
     = (\<lparr>statusCode = 500, message = ''Internal server error.'', outputPath = None,
          error = Some (OSError ENOTEMPTY ''/tmp/movie_txt'')\<rparr>, Some 500)
   \<and> published (snd (transcoder_handler env_ok req_ok stale_world))
     = [(''projects/'' @ PROJECT_ID @ ''/topics/'' @ PUBSUB_TOPIC_NAME,
         json_dumps_message ''Processing completed for movie'')]"
  by (simp add: run_stale response_500_def topic_path_def payload_def movie_def fs_defs)

text \<open>
  C5. \<open>upload_directory\<close> on a scratch directory \<open>/tmp/{n}\<close> uploads the regular
  files below it, found by the recursive walk, one after the other: the file reached from
  the directory by the names \<open>rel\<close> is read from \<open>/tmp/{n}/{rel joined by '/'}\<close> and
  uploaded under the key \<open>os.path.join(prefix, {rel joined by '/'})\<close>, its path relative
  to the directory. So every upload call of the run is such a call, in walk order, a run
  that returns has made one for every file below the directory, and with the handler's
  prefix \<open>{base}/dash/\<close> the key is \<open>{base}/dash/{relative path}\<close>: the file
  \<open>init-0.mp4\<close> of the directory goes to \<open>{base}/dash/init-0.mp4\<close>.
\<close>

theorem C5_upload_preserves_relative_paths:
  assumes "proper_name n"
    and "fs_lookup [''tmp'', n] (fs w) = Some (Dir es)"
    and "wf_entries es"
    and "upload_directory ev (''/tmp/'' @ n) bucket pre w = (r, w')"
  shows "set (rel_files es) = {rel. \<exists>c. fs_lookup ([''tmp'', n] @ rel) (fs w) = Some (File c)}
     \<and> upload_list ev bucket
          (map (\<lambda>rel. (''/tmp/'' @ n @ ''/'' @ join_sep rel, path_join pre (join_sep rel)))
             (rel_files es)) w = (r, w')
     \<and> (\<exists>k \<le> length (rel_files es).
           calls w' = calls w @
             map (\<lambda>rel. UploadBlob bucket (''/tmp/'' @ n @ ''/'' @ join_sep rel)
                          (path_join pre (join_sep rel)))
               (take k (rel_files es))
           \<and> (\<forall>u. r = Inr u \<longrightarrow> k = length (rel_files es)))
     \<and> (\<forall>rel \<in> set (rel_files es). \<forall>b.
           path_join (b @ ''/dash/'') (join_sep rel) = b @ ''/dash/'' @ join_sep rel)"
proof -
  let ?g = "\<lambda>rel. (''/tmp/'' @ n @ ''/'' @ join_sep rel, path_join pre (join_sep rel))"
  have a: "set (rel_files es) = {rel. \<exists>c. fs_lookup ([''tmp'', n] @ rel) (fs w) = Some (File c)}"
  proof -
    have la: "fs_lookup ([''tmp'', n] @ rel) (fs w) = fs_lookup rel (Dir es)" for rel
      unfolding fs_lookup_append [of "[''tmp'', n]"] assms(2) by simp
    show ?thesis unfolding la using rel_files_lookup [OF assms(3)] by blast
  qed
  have b: "upload_list ev bucket (map ?g (rel_files es)) w = (r, w')"
    using upload_directory_rel [OF assms(1-3), of ev bucket pre] assms(4) by simp
  from upload_list_calls [OF b] obtain k where k: "k \<le> length (map ?g (rel_files es))"
    "calls w' = calls w @ map (\<lambda>(l, key). UploadBlob bucket l key) (take k (map ?g (rel_files es)))"
    "\<forall>u. r = Inr u \<longrightarrow> k = length (map ?g (rel_files es))" by blast
  have c: "\<exists>k \<le> length (rel_files es).
           calls w' = calls w @
             map (\<lambda>rel. UploadBlob bucket (''/tmp/'' @ n @ ''/'' @ join_sep rel)
                          (path_join pre (join_sep rel)))
               (take k (rel_files es))
           \<and> (\<forall>u. r = Inr u \<longrightarrow> k = length (rel_files es))"
    using k by (intro exI [of _ k]) (simp add: take_map comp_def)
  have d: "\<forall>rel \<in> set (rel_files es). \<forall>b.
           path_join (b @ ''/dash/'') (join_sep rel) = b @ ''/dash/'' @ join_sep rel"
    using rel_files_proper [OF assms(3)] path_join_dash by blast
  from a b c d show ?thesis by blast
qed

theorem C5_upload_preserves_relative_paths_witness:
  "upload_directory env_ok ''/tmp/movie_dash'' DESTINATION_BUCKET_NAME ''movie/dash/'' nested_world
     = upload_list env_ok DESTINATION_BUCKET_NAME
         [(''/tmp/movie_dash/manifest.mpd'', ''movie/dash/manifest.mpd''),
          (''/tmp/movie_dash/audio/seg-1.m4s'', ''movie/dash/audio/seg-1.m4s'')] nested_world
   \<and> calls (snd (upload_directory env_ok ''/tmp/movie_dash'' DESTINATION_BUCKET_NAME
                   ''movie/dash/'' nested_world))
     = [UploadBlob DESTINATION_BUCKET_NAME ''/tmp/movie_dash/manifest.mpd''
          ''movie/dash/manifest.mpd'',
        UploadBlob DESTINATION_BUCKET_NAME ''/tmp/movie_dash/audio/seg-1.m4s''
          ''movie/dash/audio/seg-1.m4s'']"
proof -
  let ?es = "[(''manifest.mpd'', File ''mpd''), (''audio'', Dir [(''seg-1.m4s'', File ''seg'')])]"
  let ?H = "upload_directory env_ok (''/tmp/'' @ ''movie_dash'') DESTINATION_BUCKET_NAME
              ''movie/dash/'' nested_world"
  have p: "proper_name ''movie_dash''" by (simp add: proper_name_def)
  have l: "fs_lookup [''tmp'', ''movie_dash''] (fs nested_world) = Some (Dir ?es)"
    by (simp add: nested_world_def world_of_def)
  have wf: "wf_entries ?es" by (simp add: wf_entries.simps proper_name_def)
  have rf: "rel_files ?es = [[''manifest.mpd''], [''audio'', ''seg-1.m4s'']]"
    by (simp add: rel_files.simps is_file_def)
  have ok: "fst ?H = Inr ()"
    by (simp add: run_app fs_defs nested_world_def world_of_def env_ok_def Let_def)
  have c: "calls nested_world = []" by (simp add: nested_world_def world_of_def)
  note t = C5_upload_preserves_relative_paths [OF p l wf surjective_pairing,
      of env_ok DESTINATION_BUCKET_NAME "''movie/dash/''"]
  from t have e: "upload_list env_ok DESTINATION_BUCKET_NAME
          (map (\<lambda>rel. (''/tmp/'' @ ''movie_dash'' @ ''/'' @ join_sep rel,
                        path_join ''movie/dash/'' (join_sep rel)))
             (rel_files ?es)) nested_world = ?H" by simp
  from t obtain k where k: "k \<le> length (rel_files ?es)"
    "calls (snd ?H) = calls nested_world @
             map (\<lambda>rel. UploadBlob DESTINATION_BUCKET_NAME (''/tmp/'' @ ''movie_dash'' @ ''/'' @ join_sep rel)
                          (path_join ''movie/dash/'' (join_sep rel)))
               (take k (rel_files ?es))"
    "\<forall>u. fst ?H = Inr u \<longrightarrow> k = length (rel_files ?es)" by blast
  from k(3) ok have "k = 2" by (simp add: rf)
  with k(2) c have "calls (snd ?H)
     = [UploadBlob DESTINATION_BUCKET_NAME ''/tmp/movie_dash/manifest.mpd''
          ''movie/dash/manifest.mpd'',
        UploadBlob DESTINATION_BUCKET_NAME ''/tmp/movie_dash/audio/seg-1.m4s''
          ''movie/dash/audio/seg-1.m4s'']"
    by (simp add: rf path_join_def)
  moreover from e have "?H = upload_list env_ok DESTINATION_BUCKET_NAME
         [(''/tmp/movie_dash/manifest.mpd'', ''movie/dash/manifest.mpd''),
          (''/tmp/movie_dash/audio/seg-1.m4s'', ''movie/dash/audio/seg-1.m4s'')] nested_world"
    by (simp add: rf path_join_def)
  ultimately show ?thesis by simp
qed


end
